theory Spec2Isabelle
  imports Complex_Main "HOL-Library.Sublist" "HOL-Library.Word"
begin

unbundle bit_operations_syntax

section \<open>Strings\<close>

text \<open>
  JavaScript strings are modelled as \<open>string\<close> (a list of one-byte characters), so the
  model covers ASCII text: \<open>trim\<close> strips the ASCII white space and line terminators
  (tab, line feed, vertical tab, form feed, carriage return, space), \<open>toLowerCase\<close>
  maps the letters A to Z, and \<open>str_includes\<close> is \<open>String.prototype.includes\<close>.
\<close>

definition isWhiteSpace :: "char \<Rightarrow> bool" where
  "isWhiteSpace c = (of_char c \<in> {9, 10, 11, 12, 13, 32 :: nat})"

definition trim :: "string \<Rightarrow> string" where
  "trim s = rev (dropWhile isWhiteSpace (rev (dropWhile isWhiteSpace s)))"

definition toLowerCase_char :: "char \<Rightarrow> char" where
  "toLowerCase_char c =
     (case map_of (zip ''ABCDEFGHIJKLMNOPQRSTUVWXYZ'' ''abcdefghijklmnopqrstuvwxyz'') c of
        Some l \<Rightarrow> l
      | None \<Rightarrow> c)"

definition toLowerCase :: "string \<Rightarrow> string" where
  "toLowerCase s = map toLowerCase_char s"

fun str_includes :: "string \<Rightarrow> string \<Rightarrow> bool" where
  "str_includes [] sub = (sub = [])"
| "str_includes (c # cs) sub = (prefix sub (c # cs) \<or> str_includes cs sub)"

section \<open>Credential resolver: getApiKey\<close>

text \<open>
  The two sources the function reads: the entry \<open>speakpro_api_key\<close> of
  \<open>localStorage\<close> (\<open>getItem\<close> gives \<open>null\<close> for a missing entry, here \<open>None\<close>) and the
  build-time values \<open>process.env.API_KEY\<close> and \<open>process.env.GEMINI_API_KEY\<close>
  (\<open>undefined\<close> is \<open>None\<close>).
\<close>

record key_sources =
  speakpro_api_key :: "string option"
  API_KEY :: "string option"
  GEMINI_API_KEY :: "string option"

text \<open>
  The only error of the resolver: \<open>new Error(...)\<close> whose message tells the user, in
  Vietnamese, that there is no API key yet and to open Settings to enter one.
\<close>

datatype credential_error = MissingCredential

text \<open>
  \<open>k && k.trim()\<close> as the condition of an \<open>if\<close>: truthy exactly when \<open>k\<close> is a
  non-empty string whose trimmed form is non-empty; the branch then returns \<open>k.trim()\<close>.
\<close>

definition and_trim :: "string option \<Rightarrow> string option" where
  "and_trim k =
     (case k of
        None \<Rightarrow> None
      | Some s \<Rightarrow> if s \<noteq> [] \<and> trim s \<noteq> [] then Some (trim s) else None)"

text \<open>\<open>a || b\<close> on possibly undefined strings: \<open>a\<close> when it is a non-empty string, else \<open>b\<close>.\<close>

definition js_or :: "string option \<Rightarrow> string option \<Rightarrow> string option" where
  "js_or a b = (case a of None \<Rightarrow> b | Some s \<Rightarrow> if s \<noteq> [] then a else b)"

text \<open>
  The resolver of the rate-governed service (the one with \<open>waitForRateLimit\<close>): its
  environment value is \<open>process.env.API_KEY || process.env.GEMINI_API_KEY\<close>.
\<close>

definition envKey :: "key_sources \<Rightarrow> string option" where
  "envKey src = js_or (API_KEY src) (GEMINI_API_KEY src)"

definition getApiKey :: "key_sources \<Rightarrow> credential_error + string" where
  "getApiKey src =
     (case and_trim (speakpro_api_key src) of
        Some k \<Rightarrow> Inr k
      | None \<Rightarrow>
          (case and_trim (envKey src) of
             Some k \<Rightarrow> Inr k
           | None \<Rightarrow> Inl MissingCredential))"

text \<open>
  The resolver of the three-model service: the same, with \<open>process.env.API_KEY\<close> alone as
  the environment value.
\<close>

definition getApiKey_API_KEY_only :: "key_sources \<Rightarrow> credential_error + string" where
  "getApiKey_API_KEY_only src =
     (case and_trim (speakpro_api_key src) of
        Some k \<Rightarrow> Inr k
      | None \<Rightarrow>
          (case and_trim (API_KEY src) of
             Some k \<Rightarrow> Inr k
           | None \<Rightarrow> Inl MissingCredential))"

text \<open>
  The value a source yields once trimmed, as the specification words it: an absent
  source yields the empty string.
\<close>

definition trimmed :: "string option \<Rightarrow> string" where
  "trimmed k = (case k of None \<Rightarrow> [] | Some s \<Rightarrow> trim s)"

section \<open>Response normalizer: the result of evaluatePresentation\<close>

text \<open>
  JavaScript numbers are modelled as exact rationals: sums, products and quotients are
  the mathematical ones, without the rounding error of IEEE doubles. \<open>Math.round\<close>
  rounds to the nearest integer, a half going up.
\<close>

definition Math_round :: "rat \<Rightarrow> int" where
  "Math_round x = \<lfloor>x + 1 / 2\<rfloor>"

text \<open>
  \<open>normalize\<close>, local to the callback of \<open>evaluatePresentation\<close> (the same text in every
  variant of the service). Its parameter is \<open>number | undefined\<close>; \<open>None\<close> is \<open>undefined\<close>,
  and \<open>val || 0\<close> is \<open>val\<close> for a number (for 0 both sides are 0).
\<close>

definition normalize_score :: "rat option \<Rightarrow> rat" where
  "normalize_score val =
     (let num = (case val of None \<Rightarrow> 0 | Some v \<Rightarrow> v)
      in min 10 (max 0 (of_int (Math_round (num * 10)) / 10)))"

text \<open>The types of \<open>types.ts\<close>.\<close>

datatype CEFRLevel = Starters | Movers | Flyers | A1 | A2 | B1 | B2 | C1 | C2

record VocabularyItem =
  word :: string
  translation :: string
  ipa :: string
  icon :: string
  definition_text :: "string option"

record EvaluationResult =
  score :: rat
  pronunciation :: rat
  fluency :: rat
  intonation :: rat
  vocabulary :: rat
  grammar :: rat
  taskFulfillment :: rat
  perceivedLevel :: CEFRLevel
  mistakes :: "(string \<times> string) list"
  feedback :: "string option"
  teacherPraise :: "string option"
  transcript :: "string option"
  suggestions :: "string list option"
  keyVocabulary :: "VocabularyItem list"

text \<open>
  \<open>raw\<close>, the object \<open>JSON.parse\<close> gives for the response text: the keys of the response
  schema, each possibly missing, and the four keys of an \<open>EvaluationResult\<close> that the
  schema does not ask for but the remote object may still carry (the spread \<open>...raw\<close>
  copies every key).
\<close>

record raw_evaluation =
  raw_transcript :: "string option"
  raw_pronunciation :: "rat option"
  raw_fluency :: "rat option"
  raw_intonation :: "rat option"
  raw_vocabulary :: "rat option"
  raw_grammar :: "rat option"
  raw_taskFulfillment :: "rat option"
  raw_feedback :: "string option"
  raw_teacherPraise :: "string option"
  raw_suggestions :: "string list option"
  raw_score :: "rat option"
  raw_perceivedLevel :: "string option"
  raw_keyVocabulary :: "VocabularyItem list option"
  raw_mistakes :: "(string \<times> string) list option"

text \<open>
  What the callback returns for \<open>raw\<close>:
  \<open>evalResult = {...raw, pronunciation: normalize(raw.pronunciation), ...}\<close>, then
  \<open>avg\<close>, \<open>score = normalize(avg)\<close> and
  \<open>{...evalResult, score, perceivedLevel: level, keyVocabulary: [], mistakes: []}\<close>.
  The later keys of an object literal override the spread ones.
\<close>

definition evaluation_of :: "raw_evaluation \<Rightarrow> CEFRLevel \<Rightarrow> EvaluationResult" where
  "evaluation_of raw level =
     (let pronunciation' = normalize_score (raw_pronunciation raw);
          fluency' = normalize_score (raw_fluency raw);
          intonation' = normalize_score (raw_intonation raw);
          vocabulary' = normalize_score (raw_vocabulary raw);
          grammar' = normalize_score (raw_grammar raw);
          taskFulfillment' = normalize_score (raw_taskFulfillment raw);
          avg = (pronunciation' + fluency' + intonation' + vocabulary' + grammar' +
                 taskFulfillment') / 6;
          score' = normalize_score (Some avg)
      in \<lparr>score = score',
          pronunciation = pronunciation',
          fluency = fluency',
          intonation = intonation',
          vocabulary = vocabulary',
          grammar = grammar',
          taskFulfillment = taskFulfillment',
          perceivedLevel = level,
          mistakes = [],
          feedback = raw_feedback raw,
          teacherPraise = raw_teacherPraise raw,
          transcript = raw_transcript raw,
          suggestions = raw_suggestions raw,
          keyVocabulary = []\<rparr>)"



section \<open>Audio codec adapter: decodeAudioData\<close>

text \<open>
  \<open>new Int16Array(data.buffer)\<close> views the bytes as 16-bit integers, two bytes each, the
  low byte first; reading an element gives its signed value (\<open>sint\<close>). The constructor
  throws a \<open>RangeError\<close> when the byte length is odd; \<open>decodeAudioData\<close> below returns
  that error before it uses the view. The \<open>Uint8Array\<close> that \<open>decode\<close> makes covers its
  whole buffer, so \<open>data.buffer\<close> holds the bytes of \<open>data\<close> and nothing more.
\<close>

type_synonym byte = "8 word"

definition int16_le :: "byte \<Rightarrow> byte \<Rightarrow> 16 word" where
  "int16_le lo hi = push_bit 8 (ucast hi) OR ucast lo"

fun Int16Array :: "byte list \<Rightarrow> 16 word list" where
  "Int16Array (lo # hi # rest) = int16_le lo hi # Int16Array rest"
| "Int16Array rest = []"

datatype audio_error = RangeError | NotSupportedError

text \<open>
  \<open>ctx.createBuffer(numChannels, frameCount, sampleRate)\<close> belongs to the browser. The
  model takes the context as the predicate that says which requests it grants; a granted
  request gives \<open>numChannels\<close> channels of \<open>frameCount\<close> zeros, a refused one throws.
\<close>

definition createBuffer ::
  "(nat \<Rightarrow> nat \<Rightarrow> nat \<Rightarrow> bool) \<Rightarrow> nat \<Rightarrow> nat \<Rightarrow> nat \<Rightarrow> audio_error + rat list list" where
  "createBuffer ctx numChannels frameCount sampleRate =
     (if ctx numChannels frameCount sampleRate
      then Inr (replicate numChannels (replicate frameCount 0))
      else Inl NotSupportedError)"

text \<open>
  The inner loop \<open>for (let i = 0; i < frameCount; i++) channelData[i] = ...\<close> and the
  outer loop over the channels. \<open>getChannelData\<close> gives the channel's own array, so a
  write to \<open>channelData\<close> is a write to the buffer. The sample index
  \<open>i * numChannels + channel\<close> stays inside \<open>dataInt16\<close> for \<open>i < frameCount\<close> and
  \<open>channel < numChannels\<close>.
\<close>

function fill_frames ::
  "16 word list \<Rightarrow> nat \<Rightarrow> nat \<Rightarrow> nat \<Rightarrow> nat \<Rightarrow> rat list \<Rightarrow> rat list" where
  "fill_frames dataInt16 numChannels channel frameCount i channelData =
     (if i < frameCount
      then fill_frames dataInt16 numChannels channel frameCount (i + 1)
             (channelData[i := of_int (sint (dataInt16 ! (i * numChannels + channel))) / 32768])
      else channelData)"
  by pat_completeness auto
termination
  by (relation "measure (\<lambda>(dataInt16, numChannels, channel, frameCount, i, channelData).
        frameCount - i)") auto

function fill_channels ::
  "16 word list \<Rightarrow> nat \<Rightarrow> nat \<Rightarrow> nat \<Rightarrow> rat list list \<Rightarrow> rat list list" where
  "fill_channels dataInt16 numChannels frameCount channel buffer =
     (if channel < numChannels
      then fill_channels dataInt16 numChannels frameCount (channel + 1)
             (buffer[channel := fill_frames dataInt16 numChannels channel frameCount 0 (buffer ! channel)])
      else buffer)"
  by pat_completeness auto
termination
  by (relation "measure (\<lambda>(dataInt16, numChannels, frameCount, channel, buffer).
        numChannels - channel)") auto

declare fill_frames.simps [simp del]

declare fill_channels.simps [simp del]

text \<open>
  \<open>frameCount = dataInt16.length / numChannels\<close> is the exact quotient when a positive
  \<open>numChannels\<close> divides the number of samples, the case the properties below are about;
  for other channel counts the JavaScript quotient is fractional or infinite and the model
  holds the integer quotient. A sample is a 16-bit integer divided by \<open>2 ^ 15\<close>, a value
  that the \<open>Float32Array\<close> of a channel stores exactly, so the rationals of the model are
  the stored numbers.
\<close>

definition decodeAudioData ::
  "byte list \<Rightarrow> (nat \<Rightarrow> nat \<Rightarrow> nat \<Rightarrow> bool) \<Rightarrow> nat \<Rightarrow> nat \<Rightarrow> audio_error + rat list list" where
  "decodeAudioData data ctx sampleRate numChannels =
     (if odd (length data) then Inl RangeError
      else
        let dataInt16 = Int16Array data;
            frameCount = length dataInt16 div numChannels
        in case createBuffer ctx numChannels frameCount sampleRate of
             Inl e \<Rightarrow> Inl e
           | Inr buffer \<Rightarrow> Inr (fill_channels dataInt16 numChannels frameCount 0 buffer))"

text \<open>
  Modelled from the spec: the re-encoder of the round-trip law, which the repository does
  not contain (its WAV export scales by \<open>0x7FFF\<close> and is outside the specification).
  Each sample is scaled by 32768, rounded, clamped to \<open>[-32768, 32767]\<close> and written as
  two bytes, low byte first, the channels interleaved frame by frame.
\<close>

definition bytes_le :: "16 word \<Rightarrow> byte list" where
  "bytes_le w = [ucast w, ucast (drop_bit 8 w)]"

definition reencode_sample :: "rat \<Rightarrow> 16 word" where
  "reencode_sample x = word_of_int (max (- 32768) (min 32767 (Math_round (x * 32768))))"

definition reencode :: "rat list list \<Rightarrow> nat \<Rightarrow> byte list" where
  "reencode buffer frameCount =
     concat (map (\<lambda>i. concat (map (\<lambda>channelData. bytes_le (reencode_sample (channelData ! i))) buffer))
       [0..<frameCount])"

section \<open>Rate governor: waitForRateLimit\<close>

text \<open>
  The state the governor and the orchestrator act on: the clock that \<open>Date.now()\<close> reads
  (milliseconds), the module-level array \<open>requestTimestamps\<close>, and the rest of the world
  (the remote service, the local store), which the unit of work reads and changes.
\<close>

record 's world =
  clock :: int
  requestTimestamps :: "int list"
  store :: 's

definition MAX_RPM :: nat where
  "MAX_RPM = 8"

text \<open>
  \<open>while (requestTimestamps.length > 0 && requestTimestamps[0] < now - 60000)
  requestTimestamps.shift()\<close>.
\<close>

fun shift_expired :: "int \<Rightarrow> int list \<Rightarrow> int list" where
  "shift_expired now [] = []"
| "shift_expired now (t # ts) = (if t < now - 60000 then shift_expired now ts else t # ts)"

text \<open>
  \<open>await new Promise(resolve => setTimeout(resolve, ms))\<close>: the caller is suspended and
  resumes when the timer fires, taken to be exactly \<open>ms\<close> later (at once for \<open>ms \<le> 0\<close>).
\<close>

definition sleep :: "int \<Rightarrow> 's world \<Rightarrow> 's world" where
  "sleep ms w = w\<lparr>clock := clock w + max 0 ms\<rparr>"

text \<open>
  \<open>waitForRateLimit\<close> in the two pieces its \<open>await\<close> cuts it into. \<open>admit_begin\<close> runs
  from the call to the \<open>await\<close>, or to the end when the count is below the cap: it
  prunes, and either gives the wait (\<open>waitTime\<close>) or records \<open>Date.now()\<close>.
  \<open>admit_resume\<close> is what runs after the wait: the \<open>push\<close> alone, with no second look at
  the array. Where \<open>admit_begin\<close> reads \<open>requestTimestamps[0]\<close> the array holds at least
  \<open>MAX_RPM\<close> entries, so the read is of an element.
\<close>

definition admit_begin :: "'s world \<Rightarrow> int option \<times> 's world" where
  "admit_begin w =
     (let now = clock w;
          ts = shift_expired now (requestTimestamps w)
      in if MAX_RPM \<le> length ts
         then (Some (hd ts + 60000 - now + 500), w\<lparr>requestTimestamps := ts\<rparr>)
         else (None, w\<lparr>requestTimestamps := ts @ [clock w]\<rparr>))"

definition admit_resume :: "'s world \<Rightarrow> 's world" where
  "admit_resume w = w\<lparr>requestTimestamps := requestTimestamps w @ [clock w]\<rparr>"

text \<open>
  One call running alone, from start to end; the first component is the time it was
  suspended for, if it was.
\<close>

definition waitForRateLimit :: "'s world \<Rightarrow> int option \<times> 's world" where
  "waitForRateLimit w =
     (case admit_begin w of
        (None, w') \<Rightarrow> (None, w')
      | (Some waitTime, w') \<Rightarrow> (Some waitTime, admit_resume (sleep waitTime w')))"

text \<open>
  What a call finds at its decision point, the \<open>if\<close> after the pruning loop: the number
  of timestamps the loop retains, and the number of recorded timestamps that lie inside
  the trailing 60 seconds.
\<close>

definition retained :: "'s world \<Rightarrow> nat" where
  "retained w = length (shift_expired (clock w) (requestTimestamps w))"

definition in_window :: "'s world \<Rightarrow> nat" where
  "in_window w = length (filter (\<lambda>t. clock w - 60000 \<le> t) (requestTimestamps w))"

text \<open>
  Sequential use: each admission is requested \<open>gap\<close> milliseconds after the one before
  it has returned. The log holds, for each admission, the count at its decision point and
  its suspension. The module starts with an empty array (\<open>fresh\<close>).
\<close>

definition pass :: "int \<Rightarrow> 's world \<Rightarrow> 's world" where
  "pass gap w = w\<lparr>clock := clock w + gap\<rparr>"

fun admissions :: "int list \<Rightarrow> 's world \<Rightarrow> (nat \<times> int option) list \<times> 's world" where
  "admissions [] w = ([], w)"
| "admissions (gap # gaps) w =
     (let w1 = pass gap w;
          (suspended, w2) = waitForRateLimit w1;
          (log, w3) = admissions gaps w2
      in ((retained w1, suspended) # log, w3))"

definition fresh :: "int \<Rightarrow> 's \<Rightarrow> 's world" where
  "fresh t s = \<lparr>clock = t, requestTimestamps = [], store = s\<rparr>"

fun admission_times :: "int \<Rightarrow> int list \<Rightarrow> int list" where
  "admission_times c [] = []"
| "admission_times c (gap # gaps) = (c + gap) # admission_times (c + gap) gaps"

text \<open>
  Interleaved use on the cooperative scheduler: several calls of \<open>waitForRateLimit\<close> may
  be suspended at their \<open>await\<close> at once. An event starts a new call (\<open>Call\<close>), lets
  time pass (\<open>Pass\<close>), or resumes the suspended call whose timer is due first
  (\<open>Resume\<close>, possible only once the clock has reached its wake-up time). \<open>pending\<close>
  holds the wake-up times of the suspended calls. \<open>run_schedule\<close> gives the counts the
  calls found at their decision points, or \<open>None\<close> for a schedule that cannot happen.
\<close>

datatype sched_event = Call | Pass int | Resume

record 's session =
  session_world :: "'s world"
  pending :: "int list"

fun step :: "sched_event \<Rightarrow> 's session \<Rightarrow> (nat option \<times> 's session) option" where
  "step Call c =
     (let w = session_world c in
      case admit_begin w of
        (None, w') \<Rightarrow> Some (Some (retained w), c\<lparr>session_world := w'\<rparr>)
      | (Some waitTime, w') \<Rightarrow>
          Some (Some (retained w),
            c\<lparr>session_world := w', pending := pending c @ [clock w + max 0 waitTime]\<rparr>))"
| "step (Pass gap) c =
     (if 0 \<le> gap then Some (None, c\<lparr>session_world := pass gap (session_world c)\<rparr>) else None)"
| "step Resume c =
     (case pending c of
        [] \<Rightarrow> None
      | t # ts \<Rightarrow>
          if t \<le> clock (session_world c)
          then Some (None, c\<lparr>session_world := admit_resume (session_world c), pending := ts\<rparr>)
          else None)"

fun run_schedule :: "sched_event list \<Rightarrow> 's session \<Rightarrow> (nat list \<times> 's session) option" where
  "run_schedule [] c = Some ([], c)"
| "run_schedule (e # es) c =
     (case step e c of
        None \<Rightarrow> None
      | Some (n, c') \<Rightarrow>
          (case run_schedule es c' of
             None \<Rightarrow> None
           | Some (ns, c'') \<Rightarrow> Some ((case n of None \<Rightarrow> ns | Some k \<Rightarrow> k # ns), c'')))"

text \<open>
  The invariant of sequential use: the array holds at most \<open>MAX_RPM\<close> timestamps, or one
  more with the oldest already out of the window.
\<close>

definition governor_inv :: "'s world \<Rightarrow> bool" where
  "governor_inv w =
     (length (requestTimestamps w) \<le> MAX_RPM \<or>
      length (requestTimestamps w) = MAX_RPM + 1 \<and> hd (requestTimestamps w) < clock w - 60000)"

section \<open>Model fallback orchestrator: callWithModelFallback\<close>

text \<open>
  A value thrown by the unit of work, as far as the orchestrator looks at it: the number
  \<open>err?.status\<close> (\<open>None\<close> when there is none), the text \<open>JSON.stringify(err)\<close> gives
  (the thrown value is taken to be one that has such a text, as every object does), and
  \<open>err?.message\<close>.
\<close>

record err =
  status :: "int option"
  json :: string
  message :: "string option"

definition errorStr :: "err \<Rightarrow> string" where
  "errorStr e = toLowerCase (json e)"

definition isNotFound :: "err \<Rightarrow> bool" where
  "isNotFound e = (status e = Some 404 \<or> str_includes (errorStr e) ''not_found'')"

definition isRateLimit :: "err \<Rightarrow> bool" where
  "isRateLimit e =
     (status e = Some 429 \<or> str_includes (errorStr e) ''quota'' \<or>
      str_includes (errorStr e) ''rate limit'' \<or>
      str_includes (errorStr e) ''resource_exhausted'')"

definition isServerError :: "err \<Rightarrow> bool" where
  "isServerError e =
     ((case status e of None \<Rightarrow> False | Some s \<Rightarrow> 500 \<le> s) \<or>
      str_includes (errorStr e) ''internal error'')"

text \<open>\<open>models.indexOf(model)\<close>: the first position of the model, \<open>-1\<close> when it is absent.\<close>

fun indexOf :: "'a list \<Rightarrow> 'a \<Rightarrow> int" where
  "indexOf [] x = - 1"
| "indexOf (y # ys) x =
     (if y = x then 0 else let i = indexOf ys x in if i < 0 then - 1 else i + 1)"

text \<open>
  What a run does, in order: the suspensions of the rate governor, the attempts (calls of
  the unit of work, with the model) and the backoff waits.
\<close>

datatype event = RateWait int | Attempt string | Backoff int

fun attempts :: "event list \<Rightarrow> string list" where
  "attempts [] = []"
| "attempts (Attempt model # tr) = model # attempts tr"
| "attempts (e # tr) = attempts tr"

fun ungoverned :: "event list \<Rightarrow> event list" where
  "ungoverned [] = []"
| "ungoverned (RateWait waitTime # tr) = ungoverned tr"
| "ungoverned (e # tr) = e # ungoverned tr"

text \<open>
  How the inner loop over the attempts is left: by \<open>return\<close>, by \<open>throw err\<close>, or by
  \<open>break\<close> or the end of the loop, which both go on to the next model.
\<close>

datatype 'r loop_exit = Return 'r | Throw err | NextModel

text \<open>
  What the caller of the rate-governed orchestrator catches: the error of the unit of
  work itself, thrown again as it is, or the \<open>new Error\<close> after the loops, whose fixed
  message says that the API key is out of quota and to change the key or to wait a minute.
\<close>

datatype failure = Rethrown err | ExhaustedError

text \<open>
  The unit of work \<open>fn\<close> is any function of the model and the world: it returns a result
  or throws, and may change the world, the clock included (a remote call takes time).
\<close>

type_synonym ('s, 'r) unit_of_work = "string \<Rightarrow> 's world \<Rightarrow> (err + 'r) \<times> 's world"

text \<open>What one attempt adds to the trace before it calls \<open>fn\<close>.\<close>

definition governed :: "string \<Rightarrow> int option \<Rightarrow> event list" where
  "governed model suspended =
     (case suspended of None \<Rightarrow> [] | Some waitTime \<Rightarrow> [RateWait waitTime]) @ [Attempt model]"

text \<open>
  The inner loop \<open>for (let attempt = 0; attempt < maxRetries; attempt++)\<close> of the
  rate-governed service, from \<open>attempt\<close> on. \<open>attempt < maxRetries - 1\<close> is read only
  where \<open>attempt < maxRetries\<close>, so the subtraction on \<open>nat\<close> is the one on numbers.
  \<open>lastError\<close> is assigned but never read in this variant, and is left out.
\<close>

function attempts_loop ::
  "('s, 'r) unit_of_work \<Rightarrow> string list \<Rightarrow> string \<Rightarrow> nat \<Rightarrow> nat \<Rightarrow> int \<Rightarrow>
   's world \<Rightarrow> event list \<Rightarrow> 'r loop_exit \<times> 's world \<times> event list" where
  "attempts_loop fn models model maxRetries attempt delay w tr =
     (if attempt < maxRetries then
        (let (suspended, w1) = waitForRateLimit w;
             tr1 = tr @ governed model suspended
         in case fn model w1 of
              (Inr result, w2) \<Rightarrow> (Return result, w2, tr1)
            | (Inl e, w2) \<Rightarrow>
                if isNotFound e then (NextModel, w2, tr1)
                else if isRateLimit e \<and> attempt < maxRetries - 1 then
                  attempts_loop fn models model maxRetries (attempt + 1) (delay * 2)
                    (sleep (delay * 2) w2) (tr1 @ [Backoff (delay * 2)])
                else if isServerError e \<and> attempt < maxRetries - 1 then
                  attempts_loop fn models model maxRetries (attempt + 1) (delay * 2)
                    (sleep delay w2) (tr1 @ [Backoff delay])
                else if indexOf models model < int (length models) - 1 then (NextModel, w2, tr1)
                else (Throw e, w2, tr1))
      else (NextModel, w, tr))"
  by pat_completeness auto
termination
  by (relation "measure (\<lambda>(fn, models, model, maxRetries, attempt, delay, w, tr).
        maxRetries - attempt)") auto

declare attempts_loop.simps [simp del]

text \<open>
  The outer loop \<open>for (const model of models)\<close> over the rest of the chain, and the
  \<open>throw new Error\<close> after it. \<open>models\<close> stays the whole chain, which \<open>indexOf\<close> reads.
\<close>

fun models_loop ::
  "('s, 'r) unit_of_work \<Rightarrow> string list \<Rightarrow> nat \<Rightarrow> string list \<Rightarrow>
   's world \<Rightarrow> event list \<Rightarrow> (failure + 'r) \<times> 's world \<times> event list" where
  "models_loop fn models maxRetries [] w tr = (Inl ExhaustedError, w, tr)"
| "models_loop fn models maxRetries (model # rest) w tr =
     (case attempts_loop fn models model maxRetries 0 3000 w tr of
        (Return result, w', tr') \<Rightarrow> (Inr result, w', tr')
      | (Throw e, w', tr') \<Rightarrow> (Inl (Rethrown e), w', tr')
      | (NextModel, w', tr') \<Rightarrow> models_loop fn models maxRetries rest w' tr')"

text \<open>
  The orchestrator on a chain, and the function of the source, whose chain is the constant
  \<open>MODEL_FALLBACK_CHAIN\<close> whatever \<open>modelType\<close> is. Its callers leave \<open>maxRetries\<close> at the
  default 2.
\<close>

definition callWithModelFallback_on ::
  "('s, 'r) unit_of_work \<Rightarrow> string list \<Rightarrow> nat \<Rightarrow> 's world \<Rightarrow>
   (failure + 'r) \<times> 's world \<times> event list" where
  "callWithModelFallback_on fn models maxRetries w = models_loop fn models maxRetries models w []"

definition MODEL_FALLBACK_CHAIN :: "string list" where
  "MODEL_FALLBACK_CHAIN = [''gemini-2.5-flash-lite'', ''gemini-2.5-flash'']"

datatype ModelType = Text | Image

definition callWithModelFallback ::
  "('s, 'r) unit_of_work \<Rightarrow> ModelType \<Rightarrow> nat \<Rightarrow> 's world \<Rightarrow>
   (failure + 'r) \<times> 's world \<times> event list" where
  "callWithModelFallback fn modelType maxRetries w =
     callWithModelFallback_on fn MODEL_FALLBACK_CHAIN maxRetries w"

text \<open>
  The orchestrator of the three-model service: no rate governor and no not-found class,
  a delay that starts at 1500 and grows by 2.5, and an error after the loops that carries
  the number of models and the message of the last error.
\<close>

definition isRateLimit3 :: "err \<Rightarrow> bool" where
  "isRateLimit3 e =
     (status e = Some 429 \<or> str_includes (errorStr e) ''quota'' \<or>
      str_includes (errorStr e) ''rate limit'')"

datatype failure3 = Rethrown3 err | AllModelsFailed nat "string option"

definition detail :: "err option \<Rightarrow> string option" where
  "detail lastError =
     (case lastError of
        None \<Rightarrow> None
      | Some e \<Rightarrow> (case message e of None \<Rightarrow> None | Some m \<Rightarrow> if m \<noteq> [] then Some m else None))"

function attempts_loop3 ::
  "('s, 'r) unit_of_work \<Rightarrow> string list \<Rightarrow> string \<Rightarrow> nat \<Rightarrow> nat \<Rightarrow> rat \<Rightarrow> err option \<Rightarrow>
   's world \<Rightarrow> event list \<Rightarrow> 'r loop_exit \<times> err option \<times> 's world \<times> event list" where
  "attempts_loop3 fn models model maxRetries attempt delay lastError w tr =
     (if attempt < maxRetries then
        (let tr1 = tr @ [Attempt model]
         in case fn model w of
              (Inr result, w2) \<Rightarrow> (Return result, lastError, w2, tr1)
            | (Inl e, w2) \<Rightarrow>
                if (isRateLimit3 e \<or> isServerError e) \<and> attempt < maxRetries - 1 then
                  attempts_loop3 fn models model maxRetries (attempt + 1) (delay * (5 / 2)) (Some e)
                    (sleep \<lfloor>delay\<rfloor> w2) (tr1 @ [Backoff \<lfloor>delay\<rfloor>])
                else if indexOf models model < int (length models) - 1
                  then (NextModel, Some e, w2, tr1)
                else (Throw e, Some e, w2, tr1))
      else (NextModel, lastError, w, tr))"
  by pat_completeness auto
termination
  by (relation "measure (\<lambda>(fn, models, model, maxRetries, attempt, delay, lastError, w, tr).
        maxRetries - attempt)") auto

declare attempts_loop3.simps [simp del]

fun models_loop3 ::
  "('s, 'r) unit_of_work \<Rightarrow> string list \<Rightarrow> nat \<Rightarrow> string list \<Rightarrow> err option \<Rightarrow>
   's world \<Rightarrow> event list \<Rightarrow> (failure3 + 'r) \<times> 's world \<times> event list" where
  "models_loop3 fn models maxRetries [] lastError w tr =
     (Inl (AllModelsFailed (length models) (detail lastError)), w, tr)"
| "models_loop3 fn models maxRetries (model # rest) lastError w tr =
     (case attempts_loop3 fn models model maxRetries 0 1500 lastError w tr of
        (Return result, lastError', w', tr') \<Rightarrow> (Inr result, w', tr')
      | (Throw e, lastError', w', tr') \<Rightarrow> (Inl (Rethrown3 e), w', tr')
      | (NextModel, lastError', w', tr') \<Rightarrow>
          models_loop3 fn models maxRetries rest lastError' w' tr')"

definition callWithModelFallback3_on ::
  "('s, 'r) unit_of_work \<Rightarrow> string list \<Rightarrow> nat \<Rightarrow> 's world \<Rightarrow>
   (failure3 + 'r) \<times> 's world \<times> event list" where
  "callWithModelFallback3_on fn models maxRetries w =
     models_loop3 fn models maxRetries models None w []"

definition MODEL_FALLBACK_CHAIN3 :: "string list" where
  "MODEL_FALLBACK_CHAIN3 = [''gemini-1.5-flash'', ''gemini-1.5-pro'', ''gemini-1.0-pro'']"

definition callWithModelFallback3 ::
  "('s, 'r) unit_of_work \<Rightarrow> ModelType \<Rightarrow> nat \<Rightarrow> 's world \<Rightarrow>
   (failure3 + 'r) \<times> 's world \<times> event list" where
  "callWithModelFallback3 fn modelType maxRetries w =
     callWithModelFallback3_on fn
       (if modelType = Image then [''gemini-1.5-flash'', ''gemini-1.5-pro'']
        else MODEL_FALLBACK_CHAIN3)
       maxRetries w"

text \<open>
  \<open>evaluatePresentation\<close> of either service. \<open>remote\<close> stands for the part of the callback
  before \<open>normalize\<close>: the client, the request and \<open>JSON.parse\<close>, which give the raw object
  or throw.
\<close>

definition evaluation_unit ::
  "('s, raw_evaluation) unit_of_work \<Rightarrow> CEFRLevel \<Rightarrow> ('s, EvaluationResult) unit_of_work" where
  "evaluation_unit remote level model w =
     (case remote model w of
        (Inl e, w') \<Rightarrow> (Inl e, w')
      | (Inr raw, w') \<Rightarrow> (Inr (evaluation_of raw level), w'))"

definition evaluatePresentation ::
  "('s, raw_evaluation) unit_of_work \<Rightarrow> CEFRLevel \<Rightarrow> 's world \<Rightarrow>
   (failure + EvaluationResult) \<times> 's world \<times> event list" where
  "evaluatePresentation remote level w =
     callWithModelFallback (evaluation_unit remote level) Text 2 w"

definition evaluatePresentation3 ::
  "('s, raw_evaluation) unit_of_work \<Rightarrow> CEFRLevel \<Rightarrow> 's world \<Rightarrow>
   (failure3 + EvaluationResult) \<times> 's world \<times> event list" where
  "evaluatePresentation3 remote level w =
     callWithModelFallback3 (evaluation_unit remote level) Text 3 w"

text \<open>
  For the instances below: two errors, the unit of work that throws the same error at
  every attempt, and a raw response.
\<close>

definition rate_limited :: err where
  "rate_limited = \<lparr>status = Some 429, json = ''{\"status\":429}'', message = None\<rparr>"

definition not_found :: err where
  "not_found = \<lparr>status = None, json = ''{\"error\":{\"status\":\"NOT_FOUND\"}}'', message = None\<rparr>"

definition always_fails :: "err \<Rightarrow> ('s, unit) unit_of_work" where
  "always_fails e model w = (Inl e, w)"

definition raw_sample :: raw_evaluation where
  "raw_sample =
     \<lparr>raw_transcript = None, raw_pronunciation = Some 12, raw_fluency = Some (- 3),
      raw_intonation = None, raw_vocabulary = Some (29 / 4), raw_grammar = Some (1 / 20),
      raw_taskFulfillment = Some 10, raw_feedback = None, raw_teacherPraise = None,
      raw_suggestions = None, raw_score = Some 99, raw_perceivedLevel = Some ''C2'',
      raw_keyVocabulary =
        Some [\<lparr>word = ''cat'', translation = ''meo'', ipa = ''kat'', icon = ''c'',
          definition_text = None\<rparr>],
      raw_mistakes = Some [(''cat'', ''slowly'')]\<rparr>"

section \<open>Properties of the credential resolver\<close>

lemma trim_Nil: "trim [] = []"
  by (simp add: trim_def)

lemma and_trim_trimmed:
  "and_trim k = (if trimmed k \<noteq> [] then Some (trimmed k) else None)"
  by (cases k) (auto simp: and_trim_def trimmed_def trim_Nil)

lemma getApiKey_cases:
  "getApiKey src =
     (if trimmed (speakpro_api_key src) \<noteq> [] then Inr (trimmed (speakpro_api_key src))
      else if trimmed (envKey src) \<noteq> [] then Inr (trimmed (envKey src))
      else Inl MissingCredential)"
  by (simp add: getApiKey_def and_trim_trimmed)

lemma getApiKey_API_KEY_only_cases:
  "getApiKey_API_KEY_only src =
     (if trimmed (speakpro_api_key src) \<noteq> [] then Inr (trimmed (speakpro_api_key src))
      else if trimmed (API_KEY src) \<noteq> [] then Inr (trimmed (API_KEY src))
      else Inl MissingCredential)"
  by (simp add: getApiKey_API_KEY_only_def and_trim_trimmed)

lemma trimmed_sk_user: "trimmed (Some ''sk-user'') = ''sk-user''"
  by (simp add: trimmed_def trim_def isWhiteSpace_def)

lemma trimmed_sk_env: "trimmed (Some ''sk-env'') = ''sk-env''"
  by (simp add: trimmed_def trim_def isWhiteSpace_def)

lemma envKey_sk_env: "API_KEY src = Some ''sk-env'' \<Longrightarrow> envKey src = Some ''sk-env''"
  by (simp add: envKey_def js_or_def)

text \<open>
  Claim C7. The resolver returns the trimmed local-store value whenever that is
  non-empty, whatever the environment holds; otherwise the trimmed environment value when
  that is non-empty; and it fails with MissingCredential exactly when neither source
  yields a non-empty trimmed string. With an empty or blank local-store value and the
  environment value "sk-env" it returns "sk-env"; with the local-store value "sk-user"
  it returns "sk-user". Both resolvers of the repository behave so, each for its own
  environment value.
\<close>

theorem getApiKey_priority:
  "(trimmed (speakpro_api_key src) \<noteq> [] \<longrightarrow>
      getApiKey src = Inr (trimmed (speakpro_api_key src)) \<and>
      getApiKey_API_KEY_only src = Inr (trimmed (speakpro_api_key src))) \<and>
   (trimmed (speakpro_api_key src) = [] \<and> trimmed (envKey src) \<noteq> [] \<longrightarrow>
      getApiKey src = Inr (trimmed (envKey src))) \<and>
   (trimmed (speakpro_api_key src) = [] \<and> trimmed (API_KEY src) \<noteq> [] \<longrightarrow>
      getApiKey_API_KEY_only src = Inr (trimmed (API_KEY src))) \<and>
   (getApiKey src = Inl MissingCredential \<longleftrightarrow>
      trimmed (speakpro_api_key src) = [] \<and> trimmed (envKey src) = []) \<and>
   (getApiKey_API_KEY_only src = Inl MissingCredential \<longleftrightarrow>
      trimmed (speakpro_api_key src) = [] \<and> trimmed (API_KEY src) = []) \<and>
   (trimmed (speakpro_api_key src) = [] \<and> API_KEY src = Some ''sk-env'' \<longrightarrow>
      getApiKey src = Inr ''sk-env'' \<and> getApiKey_API_KEY_only src = Inr ''sk-env'') \<and>
   (speakpro_api_key src = Some ''sk-user'' \<longrightarrow>
      getApiKey src = Inr ''sk-user'' \<and> getApiKey_API_KEY_only src = Inr ''sk-user'')"
proof -
  have sk_env: "getApiKey src = Inr ''sk-env'' \<and> getApiKey_API_KEY_only src = Inr ''sk-env''"
    if "trimmed (speakpro_api_key src) = []" and "API_KEY src = Some ''sk-env''"
    using that envKey_sk_env [of src]
    by (simp add: getApiKey_cases getApiKey_API_KEY_only_cases trimmed_sk_env)
  have sk_user: "getApiKey src = Inr ''sk-user'' \<and> getApiKey_API_KEY_only src = Inr ''sk-user''"
    if "speakpro_api_key src = Some ''sk-user''"
    using that
    by (simp add: getApiKey_cases getApiKey_API_KEY_only_cases trimmed_sk_user)
  show ?thesis
    using sk_env sk_user
    by (simp add: getApiKey_cases getApiKey_API_KEY_only_cases)
qed

theorem getApiKey_priority_witness:
  "getApiKey \<lparr>speakpro_api_key = Some ''  '', API_KEY = Some ''sk-env'',
      GEMINI_API_KEY = None\<rparr> = Inr ''sk-env'' \<and>
   getApiKey_API_KEY_only \<lparr>speakpro_api_key = Some ''  '', API_KEY = Some ''sk-env'',
      GEMINI_API_KEY = None\<rparr> = Inr ''sk-env'' \<and>
   getApiKey \<lparr>speakpro_api_key = Some ''  '', API_KEY = Some ''sk-env'',
      GEMINI_API_KEY = None\<rparr> \<noteq> Inl MissingCredential"
proof -
  let ?src = "\<lparr>speakpro_api_key = Some ''  '', API_KEY = Some ''sk-env'',
      GEMINI_API_KEY = None\<rparr>"
  have blank: "trimmed (speakpro_api_key ?src) = []"
    by (simp add: trimmed_def trim_def isWhiteSpace_def)
  have env: "API_KEY ?src = Some ''sk-env''"
    by simp
  show ?thesis
    using getApiKey_priority [of ?src] blank env by simp
qed

section \<open>Properties of the response normalizer\<close>








section \<open>Properties of the audio codec adapter\<close>

lemma bytes_le_int16_le: "bytes_le (int16_le lo hi) = [lo, hi]"
  unfolding bytes_le_def int16_le_def
  apply simp
  apply (rule conjI)
   apply (rule bit_word_eqI)
   apply (auto simp add: bit_simps)
  apply (rule bit_word_eqI)
  apply (auto simp add: bit_simps dest: bit_imp_le_length)
  done

lemma length_Int16Array: "length (Int16Array data) = length data div 2"
  by (induction data rule: Int16Array.induct) auto

lemma concat_bytes_Int16Array:
  "even (length data) \<Longrightarrow> concat (map bytes_le (Int16Array data)) = data"
  by (induction data rule: Int16Array.induct) (auto simp: bytes_le_int16_le)

lemma sint16_range: "- 32768 \<le> sint (w :: 16 word) \<and> sint w \<le> 32767"
  using sint_ge [of w] sint_lt [of w] by simp

lemma Math_round_of_int: "Math_round (of_int k) = k"
  unfolding Math_round_def by (rule floor_unique) simp_all

lemma reencode_sample_inverse: "reencode_sample (of_int (sint (w :: 16 word)) / 32768) = w"
proof -
  define k where "k = sint w"
  have k: "- 32768 \<le> k" "k \<le> 32767"
    using sint16_range [of w] by (simp_all add: k_def)
  have "(of_int k :: rat) / 32768 * 32768 = of_int k"
    by simp
  then have "Math_round (of_int k / 32768 * 32768) = k"
    by (simp only: Math_round_of_int)
  then have "reencode_sample (of_int k / 32768) = word_of_int k"
    using k unfolding reencode_sample_def by (simp only: min_def max_def) simp
  then show ?thesis
    by (simp add: k_def)
qed

lemma reencode_sample_signed: "reencode_sample (signed (w :: 16 word) / 32768) = w"
  using reencode_sample_inverse [of w] by simp

lemma fill_frames_eq:
  "i \<le> frameCount \<Longrightarrow> length channelData = frameCount \<Longrightarrow>
   fill_frames dataInt16 numChannels channel frameCount i channelData =
     take i channelData @
     map (\<lambda>j. of_int (sint (dataInt16 ! (j * numChannels + channel))) / 32768) [i..<frameCount]"
proof (induction dataInt16 numChannels channel frameCount i channelData rule: fill_frames.induct)
  case (1 dataInt16 numChannels channel frameCount i channelData)
  show ?case
  proof (cases "i < frameCount")
    case True
    have "fill_frames dataInt16 numChannels channel frameCount i channelData =
          fill_frames dataInt16 numChannels channel frameCount (i + 1)
             (channelData[i := of_int (sint (dataInt16 ! (i * numChannels + channel))) / 32768])"
      using True by (subst fill_frames.simps) simp
    also have "\<dots> = take (i + 1) (channelData[i := of_int (sint (dataInt16 ! (i * numChannels + channel))) / 32768]) @
        map (\<lambda>j. of_int (sint (dataInt16 ! (j * numChannels + channel))) / 32768) [i + 1..<frameCount]"
      using "1.IH" [OF True] True "1.prems" by simp
    also have "\<dots> = take i channelData @
        map (\<lambda>j. of_int (sint (dataInt16 ! (j * numChannels + channel))) / 32768) [i..<frameCount]"
      using True "1.prems" by (simp add: take_Suc_conv_app_nth upt_conv_Cons)
    finally show ?thesis .
  next
    case False
    then show ?thesis using "1.prems" by (subst fill_frames.simps) simp
  qed
qed

lemma fill_frames_0:
  "length channelData = frameCount \<Longrightarrow>
   fill_frames dataInt16 numChannels channel frameCount 0 channelData =
     map (\<lambda>j. of_int (sint (dataInt16 ! (j * numChannels + channel))) / 32768) [0..<frameCount]"
  using fill_frames_eq [of 0 frameCount channelData dataInt16 numChannels channel] by simp

lemma fill_channels_eq:
  "channel \<le> numChannels \<Longrightarrow> length buffer = numChannels \<Longrightarrow>
   \<forall>c < numChannels. length (buffer ! c) = frameCount \<Longrightarrow>
   fill_channels dataInt16 numChannels frameCount channel buffer =
     take channel buffer @
     map (\<lambda>c. map (\<lambda>j. of_int (sint (dataInt16 ! (j * numChannels + c))) / 32768) [0..<frameCount])
       [channel..<numChannels]"
proof (induction dataInt16 numChannels frameCount channel buffer rule: fill_channels.induct)
  case (1 dataInt16 numChannels frameCount channel buffer)
  let ?row = "\<lambda>c. map (\<lambda>j. of_int (sint (dataInt16 ! (j * numChannels + c))) / 32768) [0..<frameCount]"
  show ?case
  proof (cases "channel < numChannels")
    case True
    let ?b = "buffer[channel := fill_frames dataInt16 numChannels channel frameCount 0 (buffer ! channel)]"
    have row: "fill_frames dataInt16 numChannels channel frameCount 0 (buffer ! channel) = ?row channel"
      using True "1.prems" by (simp add: fill_frames_0)
    have len: "\<forall>c < numChannels. length (?b ! c) = frameCount"
      using True "1.prems" row by (simp add: nth_list_update)
    have "fill_channels dataInt16 numChannels frameCount channel buffer =
          fill_channels dataInt16 numChannels frameCount (channel + 1) ?b"
      using True by (subst fill_channels.simps) simp
    also have "\<dots> = take (channel + 1) ?b @ map ?row [channel + 1..<numChannels]"
      using "1.IH" [OF True] True "1.prems" len by simp
    also have "\<dots> = take channel buffer @ map ?row [channel..<numChannels]"
      using True "1.prems" row by (simp add: take_Suc_conv_app_nth upt_conv_Cons)
    finally show ?thesis .
  next
    case False
    then show ?thesis using "1.prems" by (subst fill_channels.simps) simp
  qed
qed

lemma decodeAudioData_eq:
  assumes "even (length data)"
    and "ctx numChannels (length data div 2 div numChannels) sampleRate"
  shows "decodeAudioData data ctx sampleRate numChannels =
     Inr (map (\<lambda>c. map (\<lambda>j. of_int (sint (Int16Array data ! (j * numChannels + c))) / 32768)
            [0..<length data div 2 div numChannels]) [0..<numChannels])"
  using assms
  by (simp add: decodeAudioData_def createBuffer_def Let_def length_Int16Array fill_channels_eq)

lemma interleave_upt:
  "concat (map (\<lambda>i. concat (map (\<lambda>c. g (i * n + c)) [0..<n])) [0..<m]) =
   concat (map g [0..<m * n])"
proof (induction m)
  case 0
  then show ?case by simp
next
  case (Suc m)
  have e: "Suc m * n = m * n + n"
    by simp
  have "[0..<m * n + n] = [0..<m * n] @ [m * n..<m * n + n]"
    by (rule upt_add_eq_append) simp
  then have split: "map g [0..<Suc m * n] = map g [0..<m * n] @ map g [m * n..<m * n + n]"
    by (simp only: e map_append)
  have "[m * n..<m * n + n] = map (\<lambda>c. m * n + c) [0..<n]"
    using map_add_upt [of "m * n" n] by (simp add: add.commute)
  then have last: "map g [m * n..<m * n + n] = map (\<lambda>c. g (m * n + c)) [0..<n]"
    by (simp add: o_def)
  have "concat (map (\<lambda>i. concat (map (\<lambda>c. g (i * n + c)) [0..<n])) [0..<Suc m]) =
        concat (map g [0..<m * n]) @ concat (map (\<lambda>c. g (m * n + c)) [0..<n])"
    using Suc by simp
  also have "\<dots> = concat (map g [0..<m * n] @ map g [m * n..<m * n + n])"
    by (simp only: last concat_append)
  also have "\<dots> = concat (map g [0..<Suc m * n])"
    by (simp only: split)
  finally show ?case .
qed

lemma sample_unit_range:
  "- 1 \<le> (of_int (sint (w :: 16 word)) :: rat) / 32768 \<and> (of_int (sint w) :: rat) / 32768 \<le> 1"
proof -
  have "(of_int (- 32768) :: rat) \<le> of_int (sint w)" "(of_int (sint w) :: rat) \<le> of_int 32767"
    using sint16_range [of w] by (simp_all only: of_int_le_iff)
  then show ?thesis
    by (simp add: field_simps)
qed

lemma reencode_rows:
  assumes len: "length d = frameCount * numChannels"
  shows "reencode (map (\<lambda>c. map (\<lambda>j. of_int (sint (d ! (j * numChannels + c))) / 32768)
            [0..<frameCount]) [0..<numChannels]) frameCount = concat (map bytes_le d)"
proof -
  let ?row = "\<lambda>c. map (\<lambda>j. (of_int (sint (d ! (j * numChannels + c))) :: rat) / 32768) [0..<frameCount]"
  let ?g = "\<lambda>k. bytes_le (d ! k)"
  have "reencode (map ?row [0..<numChannels]) frameCount =
        concat (map (\<lambda>i. concat (map (\<lambda>c. ?g (i * numChannels + c)) [0..<numChannels]))
          [0..<frameCount])"
    unfolding reencode_def
    by (rule arg_cong [where f = concat], rule map_cong)
      (simp_all add: o_def reencode_sample_signed)
  also have "\<dots> = concat (map ?g [0..<frameCount * numChannels])"
    by (rule interleave_upt)
  also have "map ?g [0..<frameCount * numChannels] = map bytes_le d"
    using len by (simp add: list_eq_iff_nth_eq)
  finally show ?thesis .
qed

text \<open>
  Claim C6. For every PCM byte buffer of even length and every positive channel count
  that divides the number of samples, on a context that grants the buffer,
  \<open>decodeAudioData\<close> returns one array per channel, each of
  \<open>byteLength / 2 / channelCount\<close> samples; sample \<open>i\<close> of channel \<open>c\<close> is the signed
  16-bit little-endian sample \<open>i * channelCount + c\<close> of the input divided by 32768, and
  lies between -1 and 1; and re-encoding the decoded buffer (scale by 32768, round,
  clamp to the 16-bit range, interleave) gives back the input bytes. No sample of a
  decoded buffer saturates, so the round trip holds for every such input.
\<close>

theorem decodeAudioData_roundtrip:
  assumes "even (length data)"
    and "0 < numChannels"
    and "numChannels dvd length data div 2"
    and "ctx numChannels (length data div 2 div numChannels) sampleRate"
  shows "\<exists>buffer.
      decodeAudioData data ctx sampleRate numChannels = Inr buffer \<and>
      length buffer = numChannels \<and>
      (\<forall>c < numChannels. length (buffer ! c) = length data div 2 div numChannels) \<and>
      (\<forall>c < numChannels. \<forall>i < length data div 2 div numChannels.
         buffer ! c ! i = of_int (sint (Int16Array data ! (i * numChannels + c))) / 32768 \<and>
         - 1 \<le> buffer ! c ! i \<and> buffer ! c ! i \<le> 1) \<and>
      reencode buffer (length data div 2 div numChannels) = data"
proof -
  let ?fc = "length data div 2 div numChannels"
  let ?d = "Int16Array data"
  let ?buffer = "map (\<lambda>c. map (\<lambda>j. (of_int (sint (?d ! (j * numChannels + c))) :: rat) / 32768)
            [0..<?fc]) [0..<numChannels]"
  have dec: "decodeAudioData data ctx sampleRate numChannels = Inr ?buffer"
    using assms(1,4) by (rule decodeAudioData_eq)
  have len: "length ?d = ?fc * numChannels"
    using assms(3) by (simp add: length_Int16Array)
  have rt: "reencode ?buffer ?fc = data"
    using reencode_rows [OF len] concat_bytes_Int16Array [OF assms(1)] by simp
  have vals: "\<forall>c < numChannels. \<forall>i < ?fc.
         ?buffer ! c ! i = of_int (sint (?d ! (i * numChannels + c))) / 32768 \<and>
         - 1 \<le> ?buffer ! c ! i \<and> ?buffer ! c ! i \<le> 1"
    using sample_unit_range by (simp del: of_int_sint)
  show ?thesis
    using dec rt vals by (intro exI [of _ ?buffer]) simp
qed

theorem decodeAudioData_roundtrip_witness:
  "decodeAudioData [0, 128, 255, 127, 1, 0, 255, 255] (\<lambda>c f r. 0 < c \<and> 0 < f) 24000 2 =
     Inr [[- 1, 1 / 32768], [32767 / 32768, - 1 / 32768]] \<and>
   reencode [[- 1, 1 / 32768], [32767 / 32768, - 1 / 32768]] 2 =
     [0, 128, 255, 127, 1, 0, 255, 255]"
proof -
  let ?data = "[0, 128, 255, 127, 1, 0, 255, 255] :: byte list"
  let ?ctx = "\<lambda>(c::nat) (f::nat) (r::nat). 0 < c \<and> 0 < f"
  have dec: "decodeAudioData ?data ?ctx 24000 2 =
     Inr [[- 1, 1 / 32768], [32767 / 32768, - 1 / 32768]]"
    by code_simp
  have "\<exists>buffer. decodeAudioData ?data ?ctx 24000 2 = Inr buffer \<and>
      reencode buffer (length ?data div 2 div 2) = ?data"
    using decodeAudioData_roundtrip [of ?data 2 ?ctx 24000] by simp blast
  then obtain buffer where b: "decodeAudioData ?data ?ctx 24000 2 = Inr buffer"
      "reencode buffer (length ?data div 2 div 2) = ?data"
    by blast
  have fc: "length ?data div 2 div 2 = 2"
    by simp
  have "buffer = [[- 1, 1 / 32768], [32767 / 32768, - 1 / 32768]]"
    using b(1) dec by simp
  then show ?thesis
    using dec b(2) [unfolded fc] by simp
qed

section \<open>Properties of the rate governor\<close>

lemma shift_expired_dropWhile: "shift_expired now ts = dropWhile (\<lambda>t. t < now - 60000) ts"
  by (induction ts) auto

lemma length_shift_expired: "length (shift_expired now ts) \<le> length ts"
  by (simp add: shift_expired_dropWhile length_dropWhile_le)

lemma shift_expired_all_recent:
  "\<forall>t \<in> set ts. now - 60000 \<le> t \<Longrightarrow> shift_expired now ts = ts"
  by (cases ts) auto

lemma shift_expired_all_old:
  "\<forall>t \<in> set ts. t < now - 60000 \<Longrightarrow> shift_expired now ts = []"
  by (induction ts) auto

lemma hd_shift_expired:
  "shift_expired now ts \<noteq> [] \<Longrightarrow> now - 60000 \<le> hd (shift_expired now ts)"
  by (induction ts) (auto split: if_splits)

lemma filter_shift_expired:
  "filter (\<lambda>t. now - 60000 \<le> t) (shift_expired now ts) = filter (\<lambda>t. now - 60000 \<le> t) ts"
  by (induction ts) auto

lemma in_window_le_retained: "in_window w \<le> retained w"
proof -
  have "in_window w = length (filter (\<lambda>t. clock w - 60000 \<le> t)
      (shift_expired (clock w) (requestTimestamps w)))"
    by (simp add: in_window_def filter_shift_expired)
  then show ?thesis
    by (simp add: retained_def)
qed

lemma MAX_RPM_pos: "0 < MAX_RPM"
  by (simp add: MAX_RPM_def)

lemma waitForRateLimit_under:
  assumes "retained w < MAX_RPM"
  shows "waitForRateLimit w =
     (None, w\<lparr>requestTimestamps := shift_expired (clock w) (requestTimestamps w) @ [clock w]\<rparr>)"
  using assms by (simp add: waitForRateLimit_def admit_begin_def retained_def Let_def)

lemma waitForRateLimit_at_cap:
  assumes "MAX_RPM \<le> retained w"
  defines "ts \<equiv> shift_expired (clock w) (requestTimestamps w)"
  defines "waitTime \<equiv> hd ts + 60000 - clock w + 500"
  shows "waitForRateLimit w =
     (Some waitTime, w\<lparr>clock := clock w + waitTime, requestTimestamps := ts @ [clock w + waitTime]\<rparr>)"
    and "500 \<le> waitTime"
proof -
  have "ts \<noteq> []"
    using assms(1) MAX_RPM_pos by (auto simp: retained_def ts_def)
  then show w: "500 \<le> waitTime"
    using hd_shift_expired [of "clock w" "requestTimestamps w"] by (simp add: waitTime_def ts_def)
  then have "max 0 waitTime = waitTime"
    by simp
  then show "waitForRateLimit w =
     (Some waitTime, w\<lparr>clock := clock w + waitTime, requestTimestamps := ts @ [clock w + waitTime]\<rparr>)"
    using assms(1)
    by (simp add: waitForRateLimit_def admit_begin_def admit_resume_def sleep_def retained_def
        Let_def ts_def waitTime_def)
qed

lemma suspension_positive:
  assumes "fst (waitForRateLimit w) = Some d"
  shows "500 \<le> d"
proof (cases "MAX_RPM \<le> retained w")
  case True
  then show ?thesis
    using waitForRateLimit_at_cap [OF True] assms by simp
next
  case False
  then show ?thesis
    using waitForRateLimit_under [of w] assms by simp
qed

lemma one_timestamp_recorded:
  "requestTimestamps (snd (waitForRateLimit w)) =
     shift_expired (clock w) (requestTimestamps w) @ [clock (snd (waitForRateLimit w))]"
proof (cases "MAX_RPM \<le> retained w")
  case True
  then show ?thesis
    using waitForRateLimit_at_cap(1) [OF True] by simp
next
  case False
  then show ?thesis
    using waitForRateLimit_under [of w] by simp
qed

lemma governor_inv_retained:
  assumes "governor_inv w" and "0 \<le> gap"
  shows "retained (pass gap w) \<le> MAX_RPM"
proof -
  let ?ts = "requestTimestamps w"
  let ?now = "clock w + gap"
  have r: "retained (pass gap w) = length (shift_expired ?now ?ts)"
    by (simp add: retained_def pass_def)
  from assms(1) consider "length ?ts \<le> MAX_RPM"
    | "length ?ts = MAX_RPM + 1" "hd ?ts < clock w - 60000"
    unfolding governor_inv_def by blast
  then show ?thesis
  proof cases
    case 1
    then show ?thesis
      using length_shift_expired [of ?now ?ts] r by linarith
  next
    case 2
    then obtain h rest where ts: "?ts = h # rest"
      by (cases ?ts) auto
    with 2 assms(2) have "h < ?now - 60000" "length rest = MAX_RPM"
      by auto
    then have "length (shift_expired ?now ?ts) \<le> MAX_RPM"
      using length_shift_expired [of ?now rest] ts by simp
    then show ?thesis
      using r by simp
  qed
qed

lemma governor_inv_step:
  assumes "retained w \<le> MAX_RPM"
  shows "governor_inv (snd (waitForRateLimit w))"
proof (cases "MAX_RPM \<le> retained w")
  case True
  let ?ts = "shift_expired (clock w) (requestTimestamps w)"
  have len: "length ?ts = MAX_RPM"
    using True assms by (simp add: retained_def)
  then have ne: "?ts \<noteq> []"
    using MAX_RPM_pos by auto
  show ?thesis
    using waitForRateLimit_at_cap(1) [OF True] len ne
    by (simp add: governor_inv_def)
next
  case False
  then show ?thesis
    using waitForRateLimit_under [of w]
    by (simp add: governor_inv_def retained_def)
qed

lemma governor_inv_admissions:
  assumes "governor_inv w" and "\<forall>g \<in> set gaps. 0 \<le> g"
  shows "\<forall>entry \<in> set (fst (admissions gaps w)). fst entry \<le> MAX_RPM"
  using assms
proof (induction gaps arbitrary: w)
  case Nil
  then show ?case by simp
next
  case (Cons gap gaps)
  let ?w1 = "pass gap w"
  let ?w2 = "snd (waitForRateLimit ?w1)"
  have r: "retained ?w1 \<le> MAX_RPM"
    using Cons.prems by (simp add: governor_inv_retained)
  then have "governor_inv ?w2"
    by (rule governor_inv_step)
  then have "\<forall>entry \<in> set (fst (admissions gaps ?w2)). fst entry \<le> MAX_RPM"
    using Cons.IH Cons.prems by simp
  then show ?case
    using r by (simp add: Let_def split: prod.splits)
qed

lemma governor_inv_fresh: "governor_inv (fresh t s)"
  by (simp add: governor_inv_def fresh_def)

lemma fst_admissions_Cons:
  "fst (admissions (gap # gaps) w) =
     (retained (pass gap w), fst (waitForRateLimit (pass gap w))) #
     fst (admissions gaps (snd (waitForRateLimit (pass gap w))))"
  by (simp add: Let_def split: prod.splits)

lemma snd_admissions_Cons:
  "snd (admissions (gap # gaps) w) = snd (admissions gaps (snd (waitForRateLimit (pass gap w))))"
  by (simp add: Let_def split: prod.splits)

declare admissions.simps(2) [simp del]

lemma admissions_append:
  "admissions (xs @ ys) w =
     (fst (admissions xs w) @ fst (admissions ys (snd (admissions xs w))),
      snd (admissions ys (snd (admissions xs w))))"
  by (induction xs arbitrary: w) (simp_all add: fst_admissions_Cons snd_admissions_Cons prod_eq_iff)

lemma set_admission_times:
  "\<forall>g \<in> set gaps. 0 \<le> g \<Longrightarrow> t \<in> set (admission_times c gaps) \<Longrightarrow>
   c \<le> t \<and> t \<le> c + sum_list gaps"
proof (induction gaps arbitrary: c)
  case Nil
  then show ?case by simp
next
  case (Cons g gaps)
  have nonneg: "0 \<le> sum_list gaps"
    using Cons.prems(1) by (simp add: sum_list_nonneg)
  show ?case
  proof (cases "t = c + g")
    case True
    then show ?thesis using Cons.prems(1) nonneg by simp
  next
    case False
    then have "t \<in> set (admission_times (c + g) gaps)"
      using Cons.prems(2) by simp
    then have "c + g \<le> t \<and> t \<le> c + g + sum_list gaps"
      using Cons.IH [of "c + g"] Cons.prems(1) by simp
    then show ?thesis using Cons.prems(1) by simp
  qed
qed

lemma length_admission_times: "length (admission_times c gaps) = length gaps"
  by (induction gaps arbitrary: c) auto

text \<open>Below the cap, with every recorded timestamp still inside the window at the end.\<close>

lemma admissions_under_cap:
  assumes "length (requestTimestamps w) + length gaps \<le> MAX_RPM"
    and "\<forall>g \<in> set gaps. 0 \<le> g"
    and "\<forall>t \<in> set (requestTimestamps w). clock w + sum_list gaps - 60000 \<le> t"
    and "sum_list (tl gaps) \<le> 60000"
  shows "map snd (fst (admissions gaps w)) = replicate (length gaps) None \<and>
     clock (snd (admissions gaps w)) = clock w + sum_list gaps \<and>
     requestTimestamps (snd (admissions gaps w)) =
       requestTimestamps w @ admission_times (clock w) gaps"
  using assms
proof (induction gaps arbitrary: w)
  case Nil
  then show ?case by simp
next
  case (Cons gap gaps)
  let ?w1 = "pass gap w"
  let ?ts = "requestTimestamps w"
  have nonneg: "0 \<le> gap" "0 \<le> sum_list gaps" "\<forall>g \<in> set gaps. 0 \<le> g"
    using Cons.prems(2) by (simp_all add: sum_list_nonneg)
  have tl_le: "sum_list (tl gaps) \<le> sum_list gaps"
    using nonneg(3) by (cases gaps) simp_all
  have recent: "\<forall>t \<in> set ?ts. clock ?w1 - 60000 \<le> t"
    using Cons.prems(3) nonneg by (auto simp: pass_def)
  then have keep: "shift_expired (clock ?w1) (requestTimestamps ?w1) = ?ts"
    using shift_expired_all_recent [of ?ts "clock ?w1"] by (simp add: pass_def)
  then have "retained ?w1 < MAX_RPM"
    using Cons.prems(1) by (simp add: retained_def)
  then have step: "waitForRateLimit ?w1 =
      (None, ?w1\<lparr>requestTimestamps := ?ts @ [clock ?w1]\<rparr>)"
    using waitForRateLimit_under [of ?w1] keep by simp
  let ?w2 = "?w1\<lparr>requestTimestamps := ?ts @ [clock ?w1]\<rparr>"
  have c2: "clock ?w2 = clock w + gap"
    by (simp add: pass_def)
  have "map snd (fst (admissions gaps ?w2)) = replicate (length gaps) None \<and>
     clock (snd (admissions gaps ?w2)) = clock ?w2 + sum_list gaps \<and>
     requestTimestamps (snd (admissions gaps ?w2)) =
       requestTimestamps ?w2 @ admission_times (clock ?w2) gaps"
  proof (rule Cons.IH)
    show "length (requestTimestamps ?w2) + length gaps \<le> MAX_RPM"
      using Cons.prems(1) by simp
    show "\<forall>g \<in> set gaps. 0 \<le> g"
      by (rule nonneg(3))
    show "\<forall>t \<in> set (requestTimestamps ?w2). clock ?w2 + sum_list gaps - 60000 \<le> t"
      using Cons.prems(3,4) by (auto simp: pass_def)
    show "sum_list (tl gaps) \<le> 60000"
      using tl_le Cons.prems(4) by simp
  qed
  then show ?case
    using step c2 by (simp add: fst_admissions_Cons snd_admissions_Cons pass_def)
qed

lemma admissions_fill_then_suspend:
  assumes len: "length gs = MAX_RPM"
    and g0: "0 \<le> g0"
    and nonneg: "\<forall>g \<in> set gs. 0 \<le> g"
    and window: "sum_list gs < 60000"
  shows "map snd (fst (admissions (g0 # gs) (fresh t0 s))) =
     replicate MAX_RPM None @ [Some (60500 - sum_list gs)]"
proof -
  from len MAX_RPM_pos obtain mid lastgap where gs: "gs = mid @ [lastgap]"
    by (cases gs rule: rev_cases) auto
  let ?w0 = "fresh t0 s :: 'a world"
  let ?first = "g0 # mid"
  have mid_nonneg: "\<forall>g \<in> set mid. 0 \<le> g" and last_nonneg: "0 \<le> lastgap"
    using nonneg gs by simp_all
  have sum: "sum_list gs = sum_list mid + lastgap"
    using gs by simp
  have lenmid: "length ?first = MAX_RPM"
    using len gs by simp
  have run: "map snd (fst (admissions ?first ?w0)) = replicate (length ?first) None \<and>
     clock (snd (admissions ?first ?w0)) = clock ?w0 + sum_list ?first \<and>
     requestTimestamps (snd (admissions ?first ?w0)) =
       requestTimestamps ?w0 @ admission_times (clock ?w0) ?first"
  proof (rule admissions_under_cap)
    show "length (requestTimestamps ?w0) + length ?first \<le> MAX_RPM"
      using lenmid by (simp add: fresh_def)
    show "\<forall>g \<in> set ?first. 0 \<le> g"
      using mid_nonneg g0 by simp
    show "\<forall>t \<in> set (requestTimestamps ?w0). clock ?w0 + sum_list ?first - 60000 \<le> t"
      by (simp add: fresh_def)
    show "sum_list (tl ?first) \<le> 60000"
      using window sum last_nonneg by simp
  qed
  let ?w8 = "snd (admissions ?first ?w0)"
  let ?w9 = "pass lastgap ?w8"
  let ?ts = "admission_times t0 ?first"
  have ts8: "requestTimestamps ?w8 = ?ts" and c8: "clock ?w8 = t0 + g0 + sum_list mid"
    using run by (simp_all add: fresh_def)
  have hd8: "hd ?ts = t0 + g0"
    by simp
  have "\<forall>t \<in> set ?ts. t0 + g0 \<le> t"
    using set_admission_times [of mid _ "t0 + g0"] mid_nonneg by auto
  then have recent: "\<forall>t \<in> set ?ts. clock ?w9 - 60000 \<le> t"
    using c8 window sum by (auto simp: pass_def)
  have keep: "shift_expired (clock ?w9) (requestTimestamps ?w9) = ?ts"
    using shift_expired_all_recent [OF recent] ts8 by (simp add: pass_def)
  then have full: "MAX_RPM \<le> retained ?w9"
    using lenmid by (simp add: retained_def length_admission_times)
  have "fst (waitForRateLimit ?w9) = Some (hd ?ts + 60000 - clock ?w9 + 500)"
    using waitForRateLimit_at_cap(1) [OF full] keep by simp
  also have "hd ?ts + 60000 - clock ?w9 + 500 = 60500 - sum_list gs"
    using c8 sum hd8 by (simp add: pass_def)
  finally have last: "map snd (fst (admissions [lastgap] ?w8)) = [Some (60500 - sum_list gs)]"
    by (simp add: fst_admissions_Cons)
  have "g0 # gs = ?first @ [lastgap]"
    using gs by simp
  then have "map snd (fst (admissions (g0 # gs) ?w0)) =
      map snd (fst (admissions ?first ?w0)) @ map snd (fst (admissions [lastgap] ?w8))"
    by (simp only: admissions_append fst_conv map_append)
  moreover have "map snd (fst (admissions ?first ?w0)) = replicate MAX_RPM None"
    using run by (simp only: lenmid)
  ultimately show ?thesis
    using last by (simp only:)
qed

lemma admissions_spaced:
  assumes "\<forall>t \<in> set (requestTimestamps w). t \<le> clock w"
    and "\<forall>g \<in> set gaps. 60000 < g"
  shows "map snd (fst (admissions gaps w)) = replicate (length gaps) None"
  using assms
proof (induction gaps arbitrary: w)
  case Nil
  then show ?case by simp
next
  case (Cons gap gaps)
  let ?w1 = "pass gap w"
  have "\<forall>t \<in> set (requestTimestamps ?w1). t < clock ?w1 - 60000"
    using Cons.prems by (auto simp: pass_def)
  then have empty: "shift_expired (clock ?w1) (requestTimestamps ?w1) = []"
    by (rule shift_expired_all_old)
  then have "retained ?w1 < MAX_RPM"
    using MAX_RPM_pos by (simp add: retained_def)
  then have step: "waitForRateLimit ?w1 = (None, ?w1\<lparr>requestTimestamps := [clock ?w1]\<rparr>)"
    using waitForRateLimit_under [of ?w1] empty by simp
  let ?w2 = "?w1\<lparr>requestTimestamps := [clock ?w1]\<rparr>"
  have "map snd (fst (admissions gaps ?w2)) = replicate (length gaps) None"
    using Cons.IH [of ?w2] Cons.prems(2) by simp
  then show ?case
    using step by (simp add: fst_admissions_Cons)
qed

lemma length_admissions: "length (fst (admissions gaps w)) = length gaps"
  by (induction gaps arbitrary: w) (simp_all add: fst_admissions_Cons)

lemma clock_waitForRateLimit: "clock w \<le> clock (snd (waitForRateLimit w))"
proof (cases "MAX_RPM \<le> retained w")
  case True
  then show ?thesis
    using waitForRateLimit_at_cap [OF True] by simp
next
  case False
  then show ?thesis
    using waitForRateLimit_under [of w] by simp
qed

lemma clock_admissions:
  "\<forall>g \<in> set gaps. 0 \<le> g \<Longrightarrow> clock w \<le> clock (snd (admissions gaps w))"
proof (induction gaps arbitrary: w)
  case Nil
  then show ?case by simp
next
  case (Cons gap gaps)
  have "clock w \<le> clock (pass gap w)"
    using Cons.prems by (simp add: pass_def)
  also have "\<dots> \<le> clock (snd (waitForRateLimit (pass gap w)))"
    by (rule clock_waitForRateLimit)
  also have "\<dots> \<le> clock (snd (admissions gaps (snd (waitForRateLimit (pass gap w)))))"
    using Cons.IH Cons.prems by simp
  finally show ?case
    by (simp add: snd_admissions_Cons)
qed

lemma shift_expired_keeps_suffix:
  "\<forall>p \<in> set pushes. now - 60000 \<le> p \<Longrightarrow>
   \<exists>old'. shift_expired now (old @ pushes) = old' @ pushes"
proof (induction old)
  case Nil
  then show ?case
    using shift_expired_all_recent [of pushes now] by simp
next
  case (Cons t old)
  then show ?case
    by (cases "t < now - 60000") (auto intro: exI [of _ "t # old"])
qed

lemma waitForRateLimit_keeps_suffix:
  assumes "requestTimestamps w = old @ pushes"
    and "\<forall>p \<in> set pushes. clock w - 60000 \<le> p"
  shows "\<exists>old'. requestTimestamps (snd (waitForRateLimit w)) =
     old' @ pushes @ [clock (snd (waitForRateLimit w))]"
  using one_timestamp_recorded [of w] shift_expired_keeps_suffix [OF assms(2), of old] assms(1)
  by auto

lemma admissions_keep_pushes:
  assumes "\<forall>g \<in> set gaps. 0 \<le> g"
    and "requestTimestamps w = old @ pushes"
    and "\<forall>p \<in> set pushes. r \<le> p"
    and "\<forall>g \<in> set (take 1 gaps). r \<le> clock w + g"
    and "clock (snd (admissions gaps w)) - 60000 \<le> r"
  shows "\<exists>old' new. requestTimestamps (snd (admissions gaps w)) = old' @ pushes @ new \<and>
     length new = length gaps \<and> (\<forall>p \<in> set new. r \<le> p)"
  using assms
proof (induction gaps arbitrary: w old pushes)
  case Nil
  then show ?case by simp
next
  case (Cons gap gaps)
  let ?w1 = "pass gap w"
  let ?w2 = "snd (waitForRateLimit ?w1)"
  have nonneg: "0 \<le> gap" "\<forall>g \<in> set gaps. 0 \<le> g"
    using Cons.prems(1) by simp_all
  have final: "snd (admissions (gap # gaps) w) = snd (admissions gaps ?w2)"
    by (rule snd_admissions_Cons)
  have c12: "clock ?w1 \<le> clock ?w2"
    by (rule clock_waitForRateLimit)
  have c2f: "clock ?w2 \<le> clock (snd (admissions gaps ?w2))"
    using nonneg(2) by (rule clock_admissions)
  have r1: "r \<le> clock ?w1"
    using Cons.prems(4) by (simp add: pass_def)
  have "clock ?w1 - 60000 \<le> r"
    using c12 c2f Cons.prems(5) final by simp
  then have recent: "\<forall>p \<in> set pushes. clock ?w1 - 60000 \<le> p"
    using Cons.prems(3) by auto
  have "requestTimestamps ?w1 = old @ pushes"
    using Cons.prems(2) by (simp add: pass_def)
  then obtain old' where w2: "requestTimestamps ?w2 = old' @ (pushes @ [clock ?w2])"
    using waitForRateLimit_keeps_suffix [OF _ recent] by auto
  have "\<exists>old'' new. requestTimestamps (snd (admissions gaps ?w2)) =
      old'' @ (pushes @ [clock ?w2]) @ new \<and>
      length new = length gaps \<and> (\<forall>p \<in> set new. r \<le> p)"
  proof (rule Cons.IH [OF nonneg(2) w2])
    show "\<forall>p \<in> set (pushes @ [clock ?w2]). r \<le> p"
      using Cons.prems(3) r1 c12 by auto
    show "\<forall>g \<in> set (take 1 gaps). r \<le> clock ?w2 + g"
      using r1 c12 nonneg(2) by (cases gaps) auto
    show "clock (snd (admissions gaps ?w2)) - 60000 \<le> r"
      using Cons.prems(5) final by simp
  qed
  then obtain old'' new where new:
      "requestTimestamps (snd (admissions gaps ?w2)) = old'' @ (pushes @ [clock ?w2]) @ new"
      "length new = length gaps" "\<forall>p \<in> set new. r \<le> p"
    by blast
  have "requestTimestamps (snd (admissions (gap # gaps) w)) = old'' @ pushes @ (clock ?w2 # new)"
    using new(1) final by simp
  moreover have "length (clock ?w2 # new) = length (gap # gaps)"
    using new(2) by simp
  moreover have "\<forall>p \<in> set (clock ?w2 # new). r \<le> p"
    using new(3) r1 c12 by auto
  ultimately show ?case
    by blast
qed

lemma admission_after_cap_suspends:
  assumes len: "length gaps = MAX_RPM"
    and nonneg: "\<forall>g \<in> set gaps. 0 \<le> g"
    and window: "clock (snd (admissions gaps w)) + lastgap - (clock w + hd gaps) < 60000"
    and lastgap: "0 \<le> lastgap"
  defines "w9 \<equiv> pass lastgap (snd (admissions gaps w))"
  shows "fst (waitForRateLimit w9) =
      Some (hd (shift_expired (clock w9) (requestTimestamps w9)) + 60000 - clock w9 + 500)"
    and "500 \<le> hd (shift_expired (clock w9) (requestTimestamps w9)) + 60000 - clock w9 + 500"
proof -
  let ?w8 = "snd (admissions gaps w)"
  let ?w9 = "pass lastgap ?w8"
  let ?r = "clock w + hd gaps"
  have ne: "gaps \<noteq> []"
    using len MAX_RPM_pos by auto
  have "\<exists>old' new. requestTimestamps ?w8 = old' @ [] @ new \<and>
     length new = length gaps \<and> (\<forall>p \<in> set new. ?r \<le> p)"
  proof (rule admissions_keep_pushes [OF nonneg])
    show "requestTimestamps w = requestTimestamps w @ []" by simp
    show "\<forall>p \<in> set []. ?r \<le> p" by simp
    show "\<forall>g \<in> set (take 1 gaps). ?r \<le> clock w + g"
      using ne by (cases gaps) auto
    show "clock ?w8 - 60000 \<le> ?r"
      using window lastgap by simp
  qed
  then obtain old' new where new: "requestTimestamps ?w8 = old' @ new"
      "length new = MAX_RPM" "\<forall>p \<in> set new. ?r \<le> p"
    using len by auto
  have "\<forall>p \<in> set new. clock ?w9 - 60000 \<le> p"
    using new(3) window by (auto simp: pass_def)
  then obtain old'' where "shift_expired (clock ?w9) (old' @ new) = old'' @ new"
    using shift_expired_keeps_suffix by blast
  then have "MAX_RPM \<le> retained ?w9"
    using new(1,2) by (simp add: retained_def pass_def)
  then show "fst (waitForRateLimit w9) =
      Some (hd (shift_expired (clock w9) (requestTimestamps w9)) + 60000 - clock w9 + 500)"
    and "500 \<le> hd (shift_expired (clock w9) (requestTimestamps w9)) + 60000 - clock w9 + 500"
    using waitForRateLimit_at_cap [of ?w9] by (simp_all add: w9_def)
qed

text \<open>
  Claim C4. From the module's initial state, when more than \<open>MAX_RPM\<close> (8) admissions
  are requested one after the other and the first \<open>MAX_RPM + 1\<close> of them fall within
  less than 60 seconds, the first \<open>MAX_RPM\<close> are admitted without suspension and the next
  one is suspended for the time until the oldest timestamp leaves the 60-second window
  plus the margin of 500 ms, a strictly positive time. Admissions each requested more
  than 60 seconds after the one before never suspend, however many there are. The
  function has no failing branch, and whenever it suspends it does so for at least 500 ms.
  From any state whatever, after \<open>MAX_RPM\<close> admissions made one after the other, a further
  request that comes less than 60 seconds after the first of them was requested is
  suspended, until the oldest retained timestamp leaves the window plus the margin.
\<close>

theorem waitForRateLimit_admissions:
  "(length gs = MAX_RPM \<and> 0 \<le> g0 \<and> (\<forall>g \<in> set gs. 0 \<le> g) \<and> sum_list gs < 60000 \<longrightarrow>
      take (MAX_RPM + 1) (map snd (fst (admissions (g0 # gs @ later) (fresh t0 s)))) =
        replicate MAX_RPM None @ [Some ((t0 + g0) + 60000 - (t0 + g0 + sum_list gs) + 500)] \<and>
      0 < (t0 + g0) + 60000 - (t0 + g0 + sum_list gs) + 500) \<and>
   ((\<forall>t \<in> set (requestTimestamps w). t \<le> clock w) \<and> (\<forall>g \<in> set gaps. 60000 < g) \<longrightarrow>
      map snd (fst (admissions gaps w)) = replicate (length gaps) None) \<and>
   (fst (waitForRateLimit w) = Some d \<longrightarrow> 500 \<le> d) \<and>
   (length burst = MAX_RPM \<and> (\<forall>g \<in> set burst. 0 \<le> g) \<and> 0 \<le> lastgap \<and>
    clock (snd (admissions burst w0)) + lastgap - (clock w0 + hd burst) < 60000 \<longrightarrow>
      (let w9 = pass lastgap (snd (admissions burst w0));
           waitTime = hd (shift_expired (clock w9) (requestTimestamps w9)) + 60000 - clock w9 + 500
       in fst (waitForRateLimit w9) = Some waitTime \<and> 500 \<le> waitTime))"
proof (intro conjI impI)
  assume a: "length gs = MAX_RPM \<and> 0 \<le> g0 \<and> (\<forall>g \<in> set gs. 0 \<le> g) \<and> sum_list gs < 60000"
  let ?w0 = "fresh t0 s :: 'a world"
  have first: "map snd (fst (admissions (g0 # gs) ?w0)) =
      replicate MAX_RPM None @ [Some (60500 - sum_list gs)]"
    using a by (intro admissions_fill_then_suspend) simp_all
  have "g0 # gs @ later = (g0 # gs) @ later"
    by simp
  then have "map snd (fst (admissions (g0 # gs @ later) ?w0)) =
      map snd (fst (admissions (g0 # gs) ?w0)) @
      map snd (fst (admissions later (snd (admissions (g0 # gs) ?w0))))"
    by (simp only: admissions_append fst_conv map_append)
  moreover have "length (map snd (fst (admissions (g0 # gs) ?w0))) = MAX_RPM + 1"
    using a by (simp add: length_admissions)
  ultimately have "take (MAX_RPM + 1) (map snd (fst (admissions (g0 # gs @ later) ?w0))) =
      map snd (fst (admissions (g0 # gs) ?w0))"
    by simp
  moreover have "(t0 + g0) + 60000 - (t0 + g0 + sum_list gs) + 500 = 60500 - sum_list gs"
    by simp
  ultimately show "take (MAX_RPM + 1) (map snd (fst (admissions (g0 # gs @ later) ?w0))) =
      replicate MAX_RPM None @ [Some ((t0 + g0) + 60000 - (t0 + g0 + sum_list gs) + 500)]"
    using first by (simp only:)
  show "0 < (t0 + g0) + 60000 - (t0 + g0 + sum_list gs) + 500"
    using a by simp
next
  assume "(\<forall>t \<in> set (requestTimestamps w). t \<le> clock w) \<and> (\<forall>g \<in> set gaps. 60000 < g)"
  then show "map snd (fst (admissions gaps w)) = replicate (length gaps) None"
    by (intro admissions_spaced) simp_all
next
  assume "fst (waitForRateLimit w) = Some d"
  then show "500 \<le> d"
    by (rule suspension_positive)
next
  assume b: "length burst = MAX_RPM \<and> (\<forall>g \<in> set burst. 0 \<le> g) \<and> 0 \<le> lastgap \<and>
    clock (snd (admissions burst w0)) + lastgap - (clock w0 + hd burst) < 60000"
  show "let w9 = pass lastgap (snd (admissions burst w0));
           waitTime = hd (shift_expired (clock w9) (requestTimestamps w9)) + 60000 - clock w9 + 500
       in fst (waitForRateLimit w9) = Some waitTime \<and> 500 \<le> waitTime"
    using admission_after_cap_suspends [of burst w0 lastgap] b by (simp add: Let_def)
qed

theorem waitForRateLimit_admissions_witness:
  "take (MAX_RPM + 1)
     (map snd (fst (admissions (0 # replicate MAX_RPM 1000 @ [5, 5]) (fresh 0 ())))) =
     replicate MAX_RPM None @ [Some 52500] \<and>
   map snd (fst (admissions [60001, 60001, 70000] (fresh 0 ()))) = [None, None, None] \<and>
   fst (waitForRateLimit \<lparr>clock = 8000, requestTimestamps = [0, 1, 2, 3, 4, 5, 6, 7],
     store = ()\<rparr>) = Some 52500 \<and>
   fst (waitForRateLimit (pass 0 (snd (admissions [0, 0, 0, 0, 0, 0, 0, 0]
     \<lparr>clock = 59000, requestTimestamps = [0, 0, 0, 0, 0, 0, 0, 0], store = ()\<rparr>)))) =
     Some 60500"
proof -
  let ?gs = "replicate MAX_RPM (1000 :: int)"
  have sum: "sum_list ?gs = 8000"
    by (simp add: sum_list_replicate MAX_RPM_def)
  have h1: "length ?gs = MAX_RPM \<and> (0::int) \<le> 0 \<and> (\<forall>g \<in> set ?gs. 0 \<le> g) \<and>
      sum_list ?gs < 60000"
    using sum by simp
  have a: "take (MAX_RPM + 1) (map snd (fst (admissions (0 # ?gs @ [5, 5]) (fresh 0 ())))) =
     replicate MAX_RPM None @ [Some 52500]"
    using waitForRateLimit_admissions [of ?gs 0 "[5, 5]" 0 "()", THEN conjunct1] h1 sum
    by simp
  let ?w = "fresh 0 () :: unit world"
  have h2: "(\<forall>t \<in> set (requestTimestamps ?w). t \<le> clock ?w) \<and>
      (\<forall>g \<in> set [60001, 60001, 70000 :: int]. 60000 < g)"
    by (simp add: fresh_def)
  have b: "map snd (fst (admissions [60001, 60001, 70000] ?w)) = [None, None, None]"
    using waitForRateLimit_admissions [of _ _ _ _ _ ?w "[60001, 60001, 70000]",
        THEN conjunct2, THEN conjunct1] h2
    by (simp add: numeral_3_eq_3)
  have c: "fst (waitForRateLimit \<lparr>clock = 8000, requestTimestamps = [0, 1, 2, 3, 4, 5, 6, 7],
     store = ()\<rparr>) = Some 52500"
    by code_simp
  let ?busy = "\<lparr>clock = 59000, requestTimestamps = [0, 0, 0, 0, 0, 0, 0, 0], store = ()\<rparr>"
  let ?burst = "[0, 0, 0, 0, 0, 0, 0, 0] :: int list"
  let ?w9 = "pass 0 (snd (admissions ?burst ?busy))"
  have h4: "length ?burst = MAX_RPM \<and> (\<forall>g \<in> set ?burst. 0 \<le> g) \<and> (0::int) \<le> 0 \<and>
      clock (snd (admissions ?burst ?busy)) + 0 - (clock ?busy + hd ?burst) < 60000"
    by code_simp
  have v: "hd (shift_expired (clock ?w9) (requestTimestamps ?w9)) + 60000 - clock ?w9 + 500 = 60500"
    by code_simp
  have d: "fst (waitForRateLimit ?w9) = Some 60500"
    using waitForRateLimit_admissions [of _ _ _ _ _ _ _ _ ?burst 0 ?busy,
        THEN conjunct2, THEN conjunct2, THEN conjunct2] h4 v
    by (simp add: Let_def)
  show ?thesis
    using a b c d by (simp only: simp_thms)
qed

text \<open>
  Claim C5, as stated, fails for interleaved calls. Eight admissions a second apart fill
  the array; two further calls both find eight timestamps, both suspend until 60500, and
  each records its timestamp on waking without looking again; the call after them finds
  nine timestamps inside the window, one more than the cap. The list holds the counts
  the eleven calls find at their decision points.
\<close>

theorem interleaved_admissions_exceed_cap:
  "map_option fst (run_schedule
     [Call, Pass 1000, Call, Pass 1000, Call, Pass 1000, Call, Pass 1000, Call, Pass 1000,
      Call, Pass 1000, Call, Pass 1000, Call, Call, Call, Pass 53500, Resume, Resume, Call]
     \<lparr>session_world = fresh 0 (), pending = []\<rparr>) =
     Some [0, 1, 2, 3, 4, 5, 6, 7, 8, 8, 9] \<and>
   MAX_RPM < 9"
proof -
  have "map_option fst (run_schedule
     [Call, Pass 1000, Call, Pass 1000, Call, Pass 1000, Call, Pass 1000, Call, Pass 1000,
      Call, Pass 1000, Call, Pass 1000, Call, Call, Call, Pass 53500, Resume, Resume, Call]
     \<lparr>session_world = fresh 0 (), pending = []\<rparr>) =
     Some [0, 1, 2, 3, 4, 5, 6, 7, 8, 8, 9]"
    by code_simp
  then show ?thesis
    by (simp add: MAX_RPM_def)
qed

text \<open>
  Claim C5, amended. When the admissions are sequential (each call returns before the next
  is made, the clock never running backwards), then from the module's initial state the
  number of timestamps retained at every decision point is at most \<open>MAX_RPM\<close>, and so is
  the number of recorded timestamps inside the trailing 60 seconds, which never exceeds the
  retained count. Every call, suspended or not, leaves the retained timestamps as they
  are and appends exactly one, the time at which it is admitted.
\<close>

theorem sequential_admissions_within_cap:
  assumes "\<forall>g \<in> set gaps. 0 \<le> g"
  shows "(\<forall>entry \<in> set (fst (admissions gaps (fresh t0 s))). fst entry \<le> MAX_RPM) \<and>
     (\<forall>w :: 's world. in_window w \<le> retained w) \<and>
     (\<forall>w :: 's world. requestTimestamps (snd (waitForRateLimit w)) =
        shift_expired (clock w) (requestTimestamps w) @ [clock (snd (waitForRateLimit w))])"
proof (intro conjI allI)
  show "\<forall>entry \<in> set (fst (admissions gaps (fresh t0 s))). fst entry \<le> MAX_RPM"
    using governor_inv_fresh assms by (rule governor_inv_admissions)
  show "in_window w \<le> retained w" for w :: "'s world"
    by (rule in_window_le_retained)
  show "requestTimestamps (snd (waitForRateLimit w)) =
      shift_expired (clock w) (requestTimestamps w) @ [clock (snd (waitForRateLimit w))]"
    for w :: "'s world"
    by (rule one_timestamp_recorded)
qed

theorem sequential_admissions_within_cap_witness:
  "(8, Some 60500) \<in> set (fst (admissions [0, 0, 0, 0, 0, 0, 0, 0, 0, 100] (fresh 0 ()))) \<and>
   8 \<le> MAX_RPM"
proof -
  let ?gaps = "[0, 0, 0, 0, 0, 0, 0, 0, 0, 100] :: int list"
  have run: "fst (admissions ?gaps (fresh 0 ())) =
      [(0, None), (1, None), (2, None), (3, None), (4, None), (5, None), (6, None),
       (7, None), (8, Some 60500), (1, None)]"
    by code_simp
  have "\<forall>g \<in> set ?gaps. 0 \<le> g"
    by simp
  then have "\<forall>entry \<in> set (fst (admissions ?gaps (fresh 0 ()))). fst entry \<le> MAX_RPM"
    using sequential_admissions_within_cap [of ?gaps 0 "()"] by blast
  then show ?thesis
    using run by simp
qed

section \<open>Properties of the orchestrator\<close>

lemma attempts_append: "attempts (tr @ tr') = attempts tr @ attempts tr'"
  by (induction tr rule: attempts.induct) simp_all

lemma ungoverned_append: "ungoverned (tr @ tr') = ungoverned tr @ ungoverned tr'"
  by (induction tr rule: ungoverned.induct) simp_all

lemma attempts_governed: "attempts (governed model suspended) = [model]"
  by (cases suspended) (simp_all add: governed_def)

lemma ungoverned_governed: "ungoverned (governed model suspended) = [Attempt model]"
  by (cases suspended) (simp_all add: governed_def)

lemma loop_done:
  "\<not> attempt < maxRetries \<Longrightarrow>
   attempts_loop fn models model maxRetries attempt delay w tr = (NextModel, w, tr)"
  by (subst attempts_loop.simps) simp

lemma loop_return:
  "attempt < maxRetries \<Longrightarrow> waitForRateLimit w = (suspended, w1) \<Longrightarrow>
   fn model w1 = (Inr result, w2) \<Longrightarrow>
   attempts_loop fn models model maxRetries attempt delay w tr =
     (Return result, w2, tr @ governed model suspended)"
  by (subst attempts_loop.simps) (simp add: Let_def)

lemma loop_fail:
  "attempt < maxRetries \<Longrightarrow> waitForRateLimit w = (suspended, w1) \<Longrightarrow>
   fn model w1 = (Inl e, w2) \<Longrightarrow>
   attempts_loop fn models model maxRetries attempt delay w tr =
     (if isNotFound e then (NextModel, w2, tr @ governed model suspended)
      else if isRateLimit e \<and> attempt < maxRetries - 1 then
        attempts_loop fn models model maxRetries (attempt + 1) (delay * 2)
          (sleep (delay * 2) w2) (tr @ governed model suspended @ [Backoff (delay * 2)])
      else if isServerError e \<and> attempt < maxRetries - 1 then
        attempts_loop fn models model maxRetries (attempt + 1) (delay * 2)
          (sleep delay w2) (tr @ governed model suspended @ [Backoff delay])
      else if indexOf models model < int (length models) - 1
        then (NextModel, w2, tr @ governed model suspended)
      else (Throw e, w2, tr @ governed model suspended))"
  by (subst attempts_loop.simps) (simp add: Let_def)

text \<open>One rule for every property of the retry loop: a case for each way an iteration ends.\<close>

lemma attempts_loop_cases [consumes 0, case_names Done Return NotFound Retry NextModel Throw]:
  assumes exhausted: "\<And>attempt delay w tr. \<not> attempt < maxRetries \<Longrightarrow>
      P attempt delay w tr (NextModel, w, tr)"
    and returned: "\<And>attempt delay w tr suspended w1 result w2.
      attempt < maxRetries \<Longrightarrow> waitForRateLimit w = (suspended, w1) \<Longrightarrow>
      fn model w1 = (Inr result, w2) \<Longrightarrow>
      P attempt delay w tr (Return result, w2, tr @ governed model suspended)"
    and not_found: "\<And>attempt delay w tr suspended w1 e w2.
      attempt < maxRetries \<Longrightarrow> waitForRateLimit w = (suspended, w1) \<Longrightarrow>
      fn model w1 = (Inl e, w2) \<Longrightarrow> isNotFound e \<Longrightarrow>
      P attempt delay w tr (NextModel, w2, tr @ governed model suspended)"
    and retried: "\<And>attempt delay w tr suspended w1 e w2 pause x.
      attempt < maxRetries - 1 \<Longrightarrow> waitForRateLimit w = (suspended, w1) \<Longrightarrow>
      fn model w1 = (Inl e, w2) \<Longrightarrow> \<not> isNotFound e \<Longrightarrow>
      isRateLimit e \<and> pause = delay * 2 \<or> \<not> isRateLimit e \<and> isServerError e \<and> pause = delay \<Longrightarrow>
      P (attempt + 1) (delay * 2) (sleep pause w2)
        (tr @ governed model suspended @ [Backoff pause]) x \<Longrightarrow>
      P attempt delay w tr x"
    and next_model: "\<And>attempt delay w tr suspended w1 e w2.
      attempt < maxRetries \<Longrightarrow> waitForRateLimit w = (suspended, w1) \<Longrightarrow>
      fn model w1 = (Inl e, w2) \<Longrightarrow> \<not> isNotFound e \<Longrightarrow>
      \<not> ((isRateLimit e \<or> isServerError e) \<and> attempt < maxRetries - 1) \<Longrightarrow>
      indexOf models model < int (length models) - 1 \<Longrightarrow>
      P attempt delay w tr (NextModel, w2, tr @ governed model suspended)"
    and thrown: "\<And>attempt delay w tr suspended w1 e w2.
      attempt < maxRetries \<Longrightarrow> waitForRateLimit w = (suspended, w1) \<Longrightarrow>
      fn model w1 = (Inl e, w2) \<Longrightarrow> \<not> isNotFound e \<Longrightarrow>
      \<not> ((isRateLimit e \<or> isServerError e) \<and> attempt < maxRetries - 1) \<Longrightarrow>
      \<not> indexOf models model < int (length models) - 1 \<Longrightarrow>
      P attempt delay w tr (Throw e, w2, tr @ governed model suspended)"
  shows "P attempt delay w tr (attempts_loop fn models model maxRetries attempt delay w tr)"
proof (induction "maxRetries - attempt" arbitrary: attempt delay w tr)
  case 0
  then have "\<not> attempt < maxRetries"
    by simp
  then show ?case
    using exhausted by (simp add: loop_done)
next
  case (Suc n)
  then have lt: "attempt < maxRetries"
    by simp
  obtain suspended w1 where gov: "waitForRateLimit w = (suspended, w1)"
    by (cases "waitForRateLimit w")
  obtain outcome w2 where call: "fn model w1 = (outcome, w2)"
    by (cases "fn model w1")
  show ?case
  proof (cases outcome)
    case (Inr result)
    then show ?thesis
      using returned [OF lt gov] call by (simp add: loop_return [where fn = fn and model = model, OF lt gov])
  next
    case (Inl e)
    note fail = call [unfolded Inl]
    note unfold = loop_fail [where fn = fn and model = model, OF lt gov fail, of models delay tr]
    have IH: "P (attempt + 1) d' w' tr'
        (attempts_loop fn models model maxRetries (attempt + 1) d' w' tr')" for d' w' tr'
      using Suc.hyps(1) [of "attempt + 1"] Suc.hyps(2) by simp
    consider (nf) "isNotFound e"
      | (rl) "\<not> isNotFound e" "isRateLimit e" "attempt < maxRetries - 1"
      | (se) "\<not> isNotFound e" "\<not> isRateLimit e" "isServerError e" "attempt < maxRetries - 1"
      | (nx) "\<not> isNotFound e" "\<not> ((isRateLimit e \<or> isServerError e) \<and> attempt < maxRetries - 1)"
          "indexOf models model < int (length models) - 1"
      | (th) "\<not> isNotFound e" "\<not> ((isRateLimit e \<or> isServerError e) \<and> attempt < maxRetries - 1)"
          "\<not> indexOf models model < int (length models) - 1"
      by blast
    then show ?thesis
    proof cases
      case nf
      then show ?thesis
        using not_found [OF lt gov fail] unfold by simp
    next
      case rl
      have "P attempt delay w tr
          (attempts_loop fn models model maxRetries (attempt + 1) (delay * 2)
             (sleep (delay * 2) w2) (tr @ governed model suspended @ [Backoff (delay * 2)]))"
        using rl by (intro retried [OF _ gov fail, where pause = "delay * 2"] IH) simp_all
      then show ?thesis
        using unfold rl by simp
    next
      case se
      have "P attempt delay w tr
          (attempts_loop fn models model maxRetries (attempt + 1) (delay * 2)
             (sleep delay w2) (tr @ governed model suspended @ [Backoff delay]))"
        using se by (intro retried [OF _ gov fail, where pause = delay] IH) simp_all
      then show ?thesis
        using unfold se by simp
    next
      case nx
      then show ?thesis
        using next_model [OF lt gov fail] unfold by auto
    next
      case th
      then show ?thesis
        using thrown [OF lt gov fail] unfold by auto
    qed
  qed
qed

lemma attempts_loop_trace:
  "\<exists>new. snd (snd (attempts_loop fn models model maxRetries attempt delay w tr)) = tr @ new \<and>
     length (attempts new) \<le> maxRetries - attempt"
proof (induction attempt delay w tr rule: attempts_loop_cases [where fn = fn and model = model
      and maxRetries = maxRetries and models = models])
  case (Retry attempt delay w tr suspended w1 e w2 pause x)
  then obtain new where new: "snd (snd x) = (tr @ governed model suspended @ [Backoff pause]) @ new"
      "length (attempts new) \<le> maxRetries - (attempt + 1)"
    by blast
  have "snd (snd x) = tr @ (governed model suspended @ [Backoff pause] @ new)"
    using new(1) by simp
  moreover have "length (attempts (governed model suspended @ [Backoff pause] @ new)) \<le>
      maxRetries - attempt"
    using new(2) Retry(1) by (simp add: attempts_append attempts_governed)
  ultimately show ?case
    by blast
qed (auto simp: attempts_governed intro: exI [of _ "[]"])

lemma attempts_loop_Return:
  "fst (attempts_loop fn models model maxRetries attempt delay w tr) = Return result \<Longrightarrow>
   \<exists>w1 w2. fn model w1 = (Inr result, w2)"
  by (induction attempt delay w tr rule: attempts_loop_cases [where fn = fn and model = model
      and maxRetries = maxRetries and models = models]) auto



lemma attempts_loop_not_found:
  assumes fail: "\<forall>w. \<exists>e w'. fn model w = (Inl e, w') \<and> isNotFound e"
  shows "attempt < maxRetries \<longrightarrow>
     fst (attempts_loop fn models model maxRetries attempt delay w tr) = NextModel \<and>
     (\<exists>new. snd (snd (attempts_loop fn models model maxRetries attempt delay w tr)) = tr @ new \<and>
        ungoverned new = [Attempt model])"
proof (induction attempt delay w tr rule: attempts_loop_cases [where fn = fn and model = model
      and maxRetries = maxRetries and models = models])
  case (Return attempt delay w tr suspended w1 result w2)
  then show ?case using fail by (metis Pair_inject sum.distinct(1))
next
  case (NotFound attempt delay w tr suspended w1 e w2)
  then show ?case by (simp add: ungoverned_governed)
next
  case (Retry attempt delay w tr suspended w1 e w2 pause x)
  then show ?case using fail by (metis Pair_inject sum.inject(1))
next
  case (NextModel attempt delay w tr suspended w1 e w2)
  then show ?case using fail by (metis Pair_inject sum.inject(1))
next
  case (Throw attempt delay w tr suspended w1 e w2)
  then show ?case using fail by (metis Pair_inject sum.inject(1))
qed auto

lemma attempts_loop_success:
  assumes ok: "\<forall>w. fst (fn model w) = Inr b"
  shows "attempt < maxRetries \<longrightarrow>
     fst (attempts_loop fn models model maxRetries attempt delay w tr) = Return b \<and>
     (\<exists>new. snd (snd (attempts_loop fn models model maxRetries attempt delay w tr)) = tr @ new \<and>
        ungoverned new = [Attempt model])"
proof (induction attempt delay w tr rule: attempts_loop_cases [where fn = fn and model = model
      and maxRetries = maxRetries and models = models])
  case (Return attempt delay w tr suspended w1 result w2)
  then show ?case using ok by (metis fst_conv sum.inject(2) ungoverned_governed snd_conv)
next
  case (NotFound attempt delay w tr suspended w1 e w2)
  then show ?case using ok by (metis fst_conv sum.distinct(1))
next
  case (Retry attempt delay w tr suspended w1 e w2 pause x)
  then show ?case using ok by (metis fst_conv sum.distinct(1))
next
  case (NextModel attempt delay w tr suspended w1 e w2)
  then show ?case using ok by (metis fst_conv sum.distinct(1))
next
  case (Throw attempt delay w tr suspended w1 e w2)
  then show ?case using ok by (metis fst_conv sum.distinct(1))
qed auto






text \<open>The two attempts of a rate-limited model that is not the last of the chain.\<close>

lemma attempts_loop_rate_limited_twice:
  assumes fail: "\<forall>w. \<exists>e w'. fn model w = (Inl e, w') \<and> status e = Some 429 \<and> \<not> isNotFound e"
    and more: "indexOf models model < int (length models) - 1"
  shows "fst (attempts_loop fn models model 2 0 3000 w tr) = NextModel \<and>
     (\<exists>new. snd (snd (attempts_loop fn models model 2 0 3000 w tr)) = tr @ new \<and>
        ungoverned new = [Attempt model, Backoff 6000, Attempt model])"
proof -
  obtain s1 w1 where g1: "waitForRateLimit w = (s1, w1)"
    by (cases "waitForRateLimit w")
  obtain e1 w2 where f1: "fn model w1 = (Inl e1, w2)" and k1: "status e1 = Some 429" "\<not> isNotFound e1"
    using fail by blast
  let ?w3 = "sleep (3000 * 2) w2"
  let ?tr3 = "tr @ governed model s1 @ [Backoff (3000 * 2)]"
  obtain s2 w4 where g2: "waitForRateLimit ?w3 = (s2, w4)"
    by (cases "waitForRateLimit ?w3")
  obtain e2 w5 where f2: "fn model w4 = (Inl e2, w5)" and k2: "status e2 = Some 429" "\<not> isNotFound e2"
    using fail by blast
  have r1: "isRateLimit e1" and r2: "isRateLimit e2"
    using k1 k2 by (simp_all add: isRateLimit_def)
  have first: "attempts_loop fn models model 2 0 3000 w tr =
      attempts_loop fn models model 2 (0 + 1) (3000 * 2) ?w3 ?tr3"
    using loop_fail [where fn = fn and model = model, OF _ g1 f1, of 0 2 models 3000 tr] k1 r1
    by simp
  have second: "attempts_loop fn models model 2 (0 + 1) (3000 * 2) ?w3 ?tr3 =
      (NextModel, w5, ?tr3 @ governed model s2)"
    using loop_fail [where fn = fn and model = model, OF _ g2 f2, of "0 + 1" 2 models "3000 * 2" ?tr3]
      k2 more
    by simp
  have "ungoverned (governed model s1 @ [Backoff (3000 * 2)] @ governed model s2) =
      [Attempt model, Backoff 6000, Attempt model]"
    by (simp add: ungoverned_append ungoverned_governed)
  then show ?thesis
    using first second by (simp only: fst_conv snd_conv append_assoc) blast
qed

lemma models_loop_trace:
  "\<exists>new. snd (snd (models_loop fn models maxRetries remaining w tr)) = tr @ new \<and>
     length (attempts new) \<le> maxRetries * length remaining"
proof (induction remaining arbitrary: w tr)
  case Nil
  then show ?case by simp
next
  case (Cons model rest)
  obtain x w' tr' where loop: "attempts_loop fn models model maxRetries 0 3000 w tr = (x, w', tr')"
    by (cases "attempts_loop fn models model maxRetries 0 3000 w tr")
  obtain new where new: "tr' = tr @ new" "length (attempts new) \<le> maxRetries"
    using attempts_loop_trace [of fn models model maxRetries 0 3000 w tr] loop by auto
  show ?case
  proof (cases x)
    case NextModel
    obtain new' where new': "snd (snd (models_loop fn models maxRetries rest w' tr')) = tr' @ new'"
        "length (attempts new') \<le> maxRetries * length rest"
      using Cons.IH [of w' tr'] by blast
    have "snd (snd (models_loop fn models maxRetries (model # rest) w tr)) = tr @ (new @ new')"
      using loop NextModel new new' by simp
    moreover have "length (attempts (new @ new')) \<le> maxRetries * length (model # rest)"
      using new new' by (simp add: attempts_append)
    ultimately show ?thesis by blast
  next
    case (Return result)
    then have "snd (snd (models_loop fn models maxRetries (model # rest) w tr)) = tr @ new"
      using loop new by simp
    moreover have "length (attempts new) \<le> maxRetries * length (model # rest)"
      using new by simp
    ultimately show ?thesis by blast
  next
    case (Throw e)
    then have "snd (snd (models_loop fn models maxRetries (model # rest) w tr)) = tr @ new"
      using loop new by simp
    moreover have "length (attempts new) \<le> maxRetries * length (model # rest)"
      using new by simp
    ultimately show ?thesis by blast
  qed
qed

lemma models_loop_Inr:
  "fst (models_loop fn models maxRetries remaining w tr) = Inr result \<Longrightarrow>
   \<exists>model w1 w2. fn model w1 = (Inr result, w2)"
proof (induction remaining arbitrary: w tr)
  case Nil
  then show ?case by simp
next
  case (Cons model rest)
  obtain x w' tr' where loop: "attempts_loop fn models model maxRetries 0 3000 w tr = (x, w', tr')"
    by (cases "attempts_loop fn models model maxRetries 0 3000 w tr")
  show ?case
  proof (cases x)
    case NextModel
    then show ?thesis using Cons loop by simp
  next
    case (Return r)
    then have "r = result"
      using Cons.prems loop by simp
    then show ?thesis
      using attempts_loop_Return [of fn models model maxRetries 0 3000 w tr result] loop Return
      by auto
  next
    case (Throw e)
    then show ?thesis using Cons.prems loop by simp
  qed
qed


lemma loop3_done:
  "\<not> attempt < maxRetries \<Longrightarrow>
   attempts_loop3 fn models model maxRetries attempt delay lastError w tr =
     (NextModel, lastError, w, tr)"
  by (subst attempts_loop3.simps) simp

lemma loop3_return:
  "attempt < maxRetries \<Longrightarrow> fn model w = (Inr result, w2) \<Longrightarrow>
   attempts_loop3 fn models model maxRetries attempt delay lastError w tr =
     (Return result, lastError, w2, tr @ [Attempt model])"
  by (subst attempts_loop3.simps) (simp add: Let_def)

lemma loop3_fail:
  "attempt < maxRetries \<Longrightarrow> fn model w = (Inl e, w2) \<Longrightarrow>
   attempts_loop3 fn models model maxRetries attempt delay lastError w tr =
     (if (isRateLimit3 e \<or> isServerError e) \<and> attempt < maxRetries - 1 then
        attempts_loop3 fn models model maxRetries (attempt + 1) (delay * (5 / 2)) (Some e)
          (sleep \<lfloor>delay\<rfloor> w2) (tr @ [Attempt model] @ [Backoff \<lfloor>delay\<rfloor>])
      else if indexOf models model < int (length models) - 1
        then (NextModel, Some e, w2, tr @ [Attempt model])
      else (Throw e, Some e, w2, tr @ [Attempt model]))"
  by (subst attempts_loop3.simps) (simp add: Let_def)

lemma attempts_loop3_cases [consumes 0, case_names Done Return Retry NextModel Throw]:
  assumes exhausted: "\<And>attempt delay lastError w tr. \<not> attempt < maxRetries \<Longrightarrow>
      P attempt delay lastError w tr (NextModel, lastError, w, tr)"
    and returned: "\<And>attempt delay lastError w tr result w2.
      attempt < maxRetries \<Longrightarrow> fn model w = (Inr result, w2) \<Longrightarrow>
      P attempt delay lastError w tr (Return result, lastError, w2, tr @ [Attempt model])"
    and retried: "\<And>attempt delay lastError w tr e w2 x.
      attempt < maxRetries - 1 \<Longrightarrow> fn model w = (Inl e, w2) \<Longrightarrow>
      isRateLimit3 e \<or> isServerError e \<Longrightarrow>
      P (attempt + 1) (delay * (5 / 2)) (Some e) (sleep \<lfloor>delay\<rfloor> w2)
        (tr @ [Attempt model] @ [Backoff \<lfloor>delay\<rfloor>]) x \<Longrightarrow>
      P attempt delay lastError w tr x"
    and next_model: "\<And>attempt delay lastError w tr e w2.
      attempt < maxRetries \<Longrightarrow> fn model w = (Inl e, w2) \<Longrightarrow>
      \<not> ((isRateLimit3 e \<or> isServerError e) \<and> attempt < maxRetries - 1) \<Longrightarrow>
      indexOf models model < int (length models) - 1 \<Longrightarrow>
      P attempt delay lastError w tr (NextModel, Some e, w2, tr @ [Attempt model])"
    and thrown: "\<And>attempt delay lastError w tr e w2.
      attempt < maxRetries \<Longrightarrow> fn model w = (Inl e, w2) \<Longrightarrow>
      \<not> ((isRateLimit3 e \<or> isServerError e) \<and> attempt < maxRetries - 1) \<Longrightarrow>
      \<not> indexOf models model < int (length models) - 1 \<Longrightarrow>
      P attempt delay lastError w tr (Throw e, Some e, w2, tr @ [Attempt model])"
  shows "P attempt delay lastError w tr
     (attempts_loop3 fn models model maxRetries attempt delay lastError w tr)"
proof (induction "maxRetries - attempt" arbitrary: attempt delay lastError w tr)
  case 0
  then have "\<not> attempt < maxRetries"
    by simp
  then show ?case
    using exhausted by (simp add: loop3_done)
next
  case (Suc n)
  then have lt: "attempt < maxRetries"
    by simp
  obtain outcome w2 where call: "fn model w = (outcome, w2)"
    by (cases "fn model w")
  show ?case
  proof (cases outcome)
    case (Inr result)
    then show ?thesis
      using returned [OF lt] call by (simp add: loop3_return [where fn = fn and model = model, OF lt])
  next
    case (Inl e)
    note fail = call [unfolded Inl]
    note unfold = loop3_fail [where fn = fn and model = model, OF lt fail, of models delay lastError tr]
    have IH: "P (attempt + 1) d' l' w' tr'
        (attempts_loop3 fn models model maxRetries (attempt + 1) d' l' w' tr')" for d' l' w' tr'
      using Suc.hyps(1) [of "attempt + 1"] Suc.hyps(2) by simp
    consider (again) "isRateLimit3 e \<or> isServerError e" "attempt < maxRetries - 1"
      | (nx) "\<not> ((isRateLimit3 e \<or> isServerError e) \<and> attempt < maxRetries - 1)"
          "indexOf models model < int (length models) - 1"
      | (th) "\<not> ((isRateLimit3 e \<or> isServerError e) \<and> attempt < maxRetries - 1)"
          "\<not> indexOf models model < int (length models) - 1"
      by blast
    then show ?thesis
    proof cases
      case again
      have "P attempt delay lastError w tr
          (attempts_loop3 fn models model maxRetries (attempt + 1) (delay * (5 / 2)) (Some e)
             (sleep \<lfloor>delay\<rfloor> w2) (tr @ [Attempt model] @ [Backoff \<lfloor>delay\<rfloor>]))"
        using again by (intro retried [OF _ fail] IH) simp_all
      then show ?thesis
        using unfold again by simp
    next
      case nx
      then show ?thesis
        using next_model [OF lt fail] unfold by auto
    next
      case th
      then show ?thesis
        using thrown [OF lt fail] unfold by auto
    qed
  qed
qed

lemma attempts_loop3_trace:
  "\<exists>new. snd (snd (snd (attempts_loop3 fn models model maxRetries attempt delay lastError w tr))) =
       tr @ new \<and>
     length (attempts new) \<le> maxRetries - attempt"
proof (induction attempt delay lastError w tr rule: attempts_loop3_cases [where fn = fn
      and model = model and maxRetries = maxRetries and models = models])
  case (Retry attempt delay lastError w tr e w2 x)
  then obtain new where new:
      "snd (snd (snd x)) = (tr @ [Attempt model] @ [Backoff \<lfloor>delay\<rfloor>]) @ new"
      "length (attempts new) \<le> maxRetries - (attempt + 1)"
    by blast
  have "snd (snd (snd x)) = tr @ ([Attempt model] @ [Backoff \<lfloor>delay\<rfloor>] @ new)"
    using new(1) by simp
  moreover have "length (attempts ([Attempt model] @ [Backoff \<lfloor>delay\<rfloor>] @ new)) \<le>
      maxRetries - attempt"
    using new(2) Retry(1) by simp
  ultimately show ?case
    by blast
qed (auto intro: exI [of _ "[]"])

lemma attempts_loop3_Return:
  "fst (attempts_loop3 fn models model maxRetries attempt delay lastError w tr) = Return result \<Longrightarrow>
   \<exists>w1 w2. fn model w1 = (Inr result, w2)"
  by (induction attempt delay lastError w tr rule: attempts_loop3_cases [where fn = fn
      and model = model and maxRetries = maxRetries and models = models]) auto



lemma models_loop3_trace:
  "\<exists>new. snd (snd (models_loop3 fn models maxRetries remaining lastError w tr)) = tr @ new \<and>
     length (attempts new) \<le> maxRetries * length remaining"
proof (induction remaining arbitrary: lastError w tr)
  case Nil
  then show ?case by simp
next
  case (Cons model rest)
  obtain x l' w' tr' where loop:
      "attempts_loop3 fn models model maxRetries 0 1500 lastError w tr = (x, l', w', tr')"
    by (cases "attempts_loop3 fn models model maxRetries 0 1500 lastError w tr")
  obtain new where new: "tr' = tr @ new" "length (attempts new) \<le> maxRetries"
    using attempts_loop3_trace [of fn models model maxRetries 0 1500 lastError w tr] loop by auto
  show ?case
  proof (cases x)
    case NextModel
    obtain new' where new':
        "snd (snd (models_loop3 fn models maxRetries rest l' w' tr')) = tr' @ new'"
        "length (attempts new') \<le> maxRetries * length rest"
      using Cons.IH [of l' w' tr'] by blast
    have "snd (snd (models_loop3 fn models maxRetries (model # rest) lastError w tr)) =
        tr @ (new @ new')"
      using loop NextModel new new' by simp
    moreover have "length (attempts (new @ new')) \<le> maxRetries * length (model # rest)"
      using new new' by (simp add: attempts_append)
    ultimately show ?thesis by blast
  next
    case (Return result)
    then have "snd (snd (models_loop3 fn models maxRetries (model # rest) lastError w tr)) =
        tr @ new"
      using loop new by simp
    moreover have "length (attempts new) \<le> maxRetries * length (model # rest)"
      using new by simp
    ultimately show ?thesis by blast
  next
    case (Throw e)
    then have "snd (snd (models_loop3 fn models maxRetries (model # rest) lastError w tr)) =
        tr @ new"
      using loop new by simp
    moreover have "length (attempts new) \<le> maxRetries * length (model # rest)"
      using new by simp
    ultimately show ?thesis by blast
  qed
qed

lemma models_loop3_Inr:
  "fst (models_loop3 fn models maxRetries remaining lastError w tr) = Inr result \<Longrightarrow>
   \<exists>model w1 w2. fn model w1 = (Inr result, w2)"
proof (induction remaining arbitrary: lastError w tr)
  case Nil
  then show ?case by simp
next
  case (Cons model rest)
  obtain x l' w' tr' where loop:
      "attempts_loop3 fn models model maxRetries 0 1500 lastError w tr = (x, l', w', tr')"
    by (cases "attempts_loop3 fn models model maxRetries 0 1500 lastError w tr")
  show ?case
  proof (cases x)
    case NextModel
    then show ?thesis using Cons loop by simp
  next
    case (Return r)
    then have "r = result"
      using Cons.prems loop by simp
    then show ?thesis
      using attempts_loop3_Return [of fn models model maxRetries 0 1500 lastError w tr result]
        loop Return
      by auto
  next
    case (Throw e)
    then show ?thesis using Cons.prems loop by simp
  qed
qed


lemma attempts_ungoverned: "attempts (ungoverned tr) = attempts tr"
  by (induction tr rule: ungoverned.induct) simp_all

lemma rate_limited_kind: "status rate_limited = Some 429 \<and> \<not> isNotFound rate_limited"
  by (simp add: rate_limited_def isNotFound_def errorStr_def toLowerCase_def toLowerCase_char_def)

lemma not_found_kind: "isNotFound not_found"
  by (simp add: not_found_def isNotFound_def errorStr_def toLowerCase_def toLowerCase_char_def)

text \<open>
  Claim C9. Every run of the orchestrator ends, with a result or with an error: the model
  is a total function, its loops defined with their termination proofs. The number of
  attempts a run makes is at most \<open>maxRetries\<close> times the length of the chain, for every
  chain and every unit of work, in both services; for the functions of the source that is
  at most \<open>maxRetries * 2\<close> and \<open>maxRetries * 3\<close>.
\<close>

theorem attempts_bounded:
  "((\<exists>result. fst (callWithModelFallback_on fn models maxRetries w) = Inr result) \<or>
    (\<exists>error. fst (callWithModelFallback_on fn models maxRetries w) = Inl error)) \<and>
   ((\<exists>result. fst (callWithModelFallback3_on fn models maxRetries w) = Inr result) \<or>
    (\<exists>error. fst (callWithModelFallback3_on fn models maxRetries w) = Inl error)) \<and>
   length (attempts (snd (snd (callWithModelFallback_on fn models maxRetries w)))) \<le>
     maxRetries * length models \<and>
   length (attempts (snd (snd (callWithModelFallback3_on fn models maxRetries w)))) \<le>
     maxRetries * length models \<and>
   length (attempts (snd (snd (callWithModelFallback fn modelType maxRetries w)))) \<le>
     maxRetries * 2 \<and>
   length (attempts (snd (snd (callWithModelFallback3 fn modelType maxRetries w)))) \<le>
     maxRetries * 3"
proof -
  have a: "length (attempts (snd (snd (callWithModelFallback_on fn ms maxRetries w)))) \<le>
      maxRetries * length ms" for ms
    using models_loop_trace [of fn ms maxRetries ms w "[]"]
    by (auto simp: callWithModelFallback_on_def)
  have b: "length (attempts (snd (snd (callWithModelFallback3_on fn ms maxRetries w)))) \<le>
      maxRetries * length ms" for ms
    using models_loop3_trace [of fn ms maxRetries ms None w "[]"]
    by (auto simp: callWithModelFallback3_on_def)
  have c: "length (attempts (snd (snd (callWithModelFallback fn modelType maxRetries w)))) \<le>
      maxRetries * 2"
    using a [of MODEL_FALLBACK_CHAIN]
    by (simp add: callWithModelFallback_def MODEL_FALLBACK_CHAIN_def)
  have d: "length (attempts (snd (snd (callWithModelFallback3 fn modelType maxRetries w)))) \<le>
      maxRetries * 3"
  proof (cases "modelType = Image")
    case True
    have "maxRetries * 2 \<le> maxRetries * 3"
      by simp
    then show ?thesis
      using b [of "[''gemini-1.5-flash'', ''gemini-1.5-pro'']"] True
      by (simp add: callWithModelFallback3_def)
  next
    case False
    then show ?thesis
      using b [of MODEL_FALLBACK_CHAIN3]
      by (simp add: callWithModelFallback3_def MODEL_FALLBACK_CHAIN3_def)
  qed
  have e: "(\<exists>result. fst (callWithModelFallback_on fn models maxRetries w) = Inr result) \<or>
      (\<exists>error. fst (callWithModelFallback_on fn models maxRetries w) = Inl error)"
    by (cases "fst (callWithModelFallback_on fn models maxRetries w)") simp_all
  have f: "(\<exists>result. fst (callWithModelFallback3_on fn models maxRetries w) = Inr result) \<or>
      (\<exists>error. fst (callWithModelFallback3_on fn models maxRetries w) = Inl error)"
    by (cases "fst (callWithModelFallback3_on fn models maxRetries w)") simp_all
  show ?thesis
    using a [of models] b [of models] c d e f by (intro conjI)
qed

lemma always_rate_limited_run:
  "callWithModelFallback (always_fails rate_limited) Text 2 (fresh 0 ()) =
     (Inl (Rethrown rate_limited),
      \<lparr>clock = 12000, requestTimestamps = [0, 6000, 6000, 12000], store = ()\<rparr>,
      [Attempt ''gemini-2.5-flash-lite'', Backoff 6000, Attempt ''gemini-2.5-flash-lite'',
       Attempt ''gemini-2.5-flash'', Backoff 6000, Attempt ''gemini-2.5-flash''])"
  by code_simp

theorem attempts_bounded_witness:
  "length (attempts (snd (snd (callWithModelFallback
      (always_fails rate_limited) Text 2 (fresh 0 ()))))) = 4 \<and>
   length (attempts (snd (snd (callWithModelFallback
      (always_fails rate_limited) Text 2 (fresh 0 ()))))) \<le> 2 * 2"
  using attempts_bounded [of "always_fails rate_limited" "[]" 2 "fresh 0 ()" Text]
  by (simp add: always_rate_limited_run)




text \<open>
  Claim C3. On a chain \<open>[A, B]\<close> with \<open>maxRetries > 0\<close>, when every attempt against \<open>A\<close>
  fails with a not-found error (status 404, or \<open>not_found\<close> in the serialized error) and
  every attempt against \<open>B\<close> returns \<open>b\<close>, the run returns \<open>b\<close> after exactly one
  attempt against \<open>A\<close> followed by one against \<open>B\<close>, with no backoff wait between them.
\<close>

theorem not_found_skips_model:
  assumes nf: "\<forall>w. \<exists>e w'. fn A w = (Inl e, w') \<and> isNotFound e"
    and ok: "\<forall>w. fst (fn B w) = Inr b"
    and pos: "0 < maxRetries"
  shows "fst (callWithModelFallback_on fn [A, B] maxRetries w) = Inr b \<and>
     ungoverned (snd (snd (callWithModelFallback_on fn [A, B] maxRetries w))) =
       [Attempt A, Attempt B] \<and>
     attempts (snd (snd (callWithModelFallback_on fn [A, B] maxRetries w))) = [A, B]"
proof -
  let ?la = "attempts_loop fn [A, B] A maxRetries 0 3000 w []"
  obtain xa wa tra where la: "?la = (xa, wa, tra)"
    by (cases ?la)
  have "fst ?la = NextModel \<and> (\<exists>new. snd (snd ?la) = [] @ new \<and> ungoverned new = [Attempt A])"
    using attempts_loop_not_found [where fn = fn and model = A and attempt = 0
        and maxRetries = maxRetries and models = "[A, B]" and delay = 3000 and w = w
        and tr = "[]", OF nf] pos
    by simp
  then have xa: "xa = NextModel" and tra: "ungoverned tra = [Attempt A]"
    using la by auto
  let ?lb = "attempts_loop fn [A, B] B maxRetries 0 3000 wa tra"
  obtain xb wb trb where lb: "?lb = (xb, wb, trb)"
    by (cases ?lb)
  have "fst ?lb = Return b \<and> (\<exists>new. snd (snd ?lb) = tra @ new \<and> ungoverned new = [Attempt B])"
    using attempts_loop_success [where fn = fn and model = B and attempt = 0
        and maxRetries = maxRetries and models = "[A, B]" and delay = 3000 and w = wa
        and tr = tra, OF ok] pos
    by simp
  then have xb: "xb = Return b" and trb: "ungoverned trb = [Attempt A, Attempt B]"
    using lb tra by (auto simp: ungoverned_append)
  have run: "callWithModelFallback_on fn [A, B] maxRetries w = (Inr b, wb, trb)"
    using la lb xa xb by (simp add: callWithModelFallback_on_def)
  have "attempts trb = [A, B]"
    using trb attempts_ungoverned [of trb] by simp
  then show ?thesis
    using run trb by simp
qed

theorem not_found_skips_model_witness:
  "fst (callWithModelFallback_on
      (\<lambda>model w. (if model = ''A'' then Inl not_found else Inr (7 :: nat), w))
      [''A'', ''B''] 2 (fresh 0 ())) = Inr 7 \<and>
   attempts (snd (snd (callWithModelFallback_on
      (\<lambda>model w. (if model = ''A'' then Inl not_found else Inr (7 :: nat), w))
      [''A'', ''B''] 2 (fresh 0 ())))) = [''A'', ''B'']"
proof -
  let ?fn = "\<lambda>(model :: string) (w :: unit world).
      (if model = ''A'' then Inl not_found else Inr (7 :: nat), w)"
  have nf: "\<forall>w. \<exists>e w'. ?fn ''A'' w = (Inl e, w') \<and> isNotFound e"
    using not_found_kind by simp
  have ok: "\<forall>w. fst (?fn ''B'' w) = Inr 7"
    by simp
  show ?thesis
    using not_found_skips_model [where fn = ?fn and A = "''A''" and B = "''B''" and b = 7
        and maxRetries = 2 and w = "fresh 0 ()", OF nf ok]
    by simp
qed

text \<open>
  Claim C8. On a chain \<open>[model1, model2]\<close> with \<open>maxRetries = 2\<close>, when every attempt
  against \<open>model1\<close> fails with HTTP 429 (an error without a not-found marker, which would
  take precedence) and the attempt against \<open>model2\<close> returns \<open>b\<close>, the run makes
  exactly three attempts, two against \<open>model1\<close> and then one against \<open>model2\<close>, waits the
  doubled delay of 2 * 3000 ms between the two attempts against \<open>model1\<close>, and returns
  \<open>b\<close>.
\<close>

theorem rate_limited_then_next_model:
  assumes rl: "\<forall>w. \<exists>e w'. fn model1 w = (Inl e, w') \<and> status e = Some 429 \<and> \<not> isNotFound e"
    and ok: "\<forall>w. fst (fn model2 w) = Inr b"
  shows "fst (callWithModelFallback_on fn [model1, model2] 2 w) = Inr b \<and>
     ungoverned (snd (snd (callWithModelFallback_on fn [model1, model2] 2 w))) =
       [Attempt model1, Backoff (2 * 3000), Attempt model1, Attempt model2] \<and>
     attempts (snd (snd (callWithModelFallback_on fn [model1, model2] 2 w))) =
       [model1, model1, model2]"
proof -
  let ?ms = "[model1, model2]"
  let ?la = "attempts_loop fn ?ms model1 2 0 3000 w []"
  obtain xa wa tra where la: "?la = (xa, wa, tra)"
    by (cases ?la)
  have more: "indexOf ?ms model1 < int (length ?ms) - 1"
    by simp
  have "fst ?la = NextModel \<and>
      (\<exists>new. snd (snd ?la) = [] @ new \<and>
         ungoverned new = [Attempt model1, Backoff 6000, Attempt model1])"
    by (rule attempts_loop_rate_limited_twice [where fn = fn and model = model1, OF rl more])
  then have xa: "xa = NextModel"
    and tra: "ungoverned tra = [Attempt model1, Backoff 6000, Attempt model1]"
    using la by auto
  let ?lb = "attempts_loop fn ?ms model2 2 0 3000 wa tra"
  obtain xb wb trb where lb: "?lb = (xb, wb, trb)"
    by (cases ?lb)
  have "fst ?lb = Return b \<and> (\<exists>new. snd (snd ?lb) = tra @ new \<and> ungoverned new = [Attempt model2])"
    using attempts_loop_success [where fn = fn and model = model2 and attempt = 0
        and maxRetries = 2 and models = ?ms and delay = 3000 and w = wa and tr = tra, OF ok]
    by simp
  then have xb: "xb = Return b"
    and trb: "ungoverned trb = [Attempt model1, Backoff 6000, Attempt model1, Attempt model2]"
    using lb tra by (auto simp: ungoverned_append)
  have run: "callWithModelFallback_on fn ?ms 2 w = (Inr b, wb, trb)"
    using la lb xa xb by (simp add: callWithModelFallback_on_def)
  have "attempts trb = [model1, model1, model2]"
    using trb attempts_ungoverned [of trb] by simp
  then show ?thesis
    using run trb by simp
qed

theorem rate_limited_then_next_model_witness:
  "fst (callWithModelFallback_on
      (\<lambda>model w. (if model = ''model1'' then Inl rate_limited else Inr (7 :: nat), w))
      [''model1'', ''model2''] 2 (fresh 0 ())) = Inr 7 \<and>
   ungoverned (snd (snd (callWithModelFallback_on
      (\<lambda>model w. (if model = ''model1'' then Inl rate_limited else Inr (7 :: nat), w))
      [''model1'', ''model2''] 2 (fresh 0 ())))) =
     [Attempt ''model1'', Backoff 6000, Attempt ''model1'', Attempt ''model2'']"
proof -
  let ?fn = "\<lambda>(model :: string) (w :: unit world).
      (if model = ''model1'' then Inl rate_limited else Inr (7 :: nat), w)"
  have rl: "\<forall>w. \<exists>e w'. ?fn ''model1'' w = (Inl e, w') \<and> status e = Some 429 \<and> \<not> isNotFound e"
    using rate_limited_kind by simp
  have ok: "\<forall>w. fst (?fn ''model2'' w) = Inr 7"
    by simp
  show ?thesis
    using rate_limited_then_next_model [where fn = ?fn and ?model1.0 = "''model1''"
        and ?model2.0 = "''model2''" and b = 7 and w = "fresh 0 ()", OF rl ok]
    by simp
qed

lemma evaluation_unit_Inr:
  "evaluation_unit remote level model w1 = (Inr result, w2) \<Longrightarrow>
   \<exists>raw. result = evaluation_of raw level"
  by (auto simp: evaluation_unit_def split: prod.splits sum.splits)

lemma evaluation_of_fixed:
  "mistakes (evaluation_of raw level) = [] \<and> keyVocabulary (evaluation_of raw level) = [] \<and>
   perceivedLevel (evaluation_of raw level) = level"
  by (simp add: evaluation_of_def Let_def)

text \<open>
  Claim C10. Whenever \<open>evaluatePresentation\<close> returns a result, in either service and
  whatever the remote responses hold, the result has an empty list of mistakes, an empty
  key vocabulary and the perceived level equal to the \<open>level\<close> argument.
\<close>

theorem evaluatePresentation_fixed_fields:
  "(fst (evaluatePresentation3 remote level w) = Inr result \<longrightarrow>
      mistakes result = [] \<and> keyVocabulary result = [] \<and> perceivedLevel result = level) \<and>
   (fst (evaluatePresentation remote level w) = Inr result \<longrightarrow>
      mistakes result = [] \<and> keyVocabulary result = [] \<and> perceivedLevel result = level)"
proof (intro conjI impI)
  assume "fst (evaluatePresentation3 remote level w) = Inr result"
  then obtain model w1 w2 where "evaluation_unit remote level model w1 = (Inr result, w2)"
    unfolding evaluatePresentation3_def callWithModelFallback3_def callWithModelFallback3_on_def
    using models_loop3_Inr [where fn = "evaluation_unit remote level"] by blast
  then obtain raw where r: "result = evaluation_of raw level"
    using evaluation_unit_Inr by blast
  show "mistakes result = []" "keyVocabulary result = []" "perceivedLevel result = level"
    using evaluation_of_fixed [of raw level] r by simp_all
next
  assume "fst (evaluatePresentation remote level w) = Inr result"
  then obtain model w1 w2 where "evaluation_unit remote level model w1 = (Inr result, w2)"
    unfolding evaluatePresentation_def callWithModelFallback_def callWithModelFallback_on_def
    using models_loop_Inr [where fn = "evaluation_unit remote level"] by blast
  then obtain raw where r: "result = evaluation_of raw level"
    using evaluation_unit_Inr by blast
  show "mistakes result = []" "keyVocabulary result = []" "perceivedLevel result = level"
    using evaluation_of_fixed [of raw level] r by simp_all
qed

lemma evaluatePresentation_sample:
  "fst (evaluatePresentation3 (\<lambda>model w. (Inr raw_sample, w)) A1 (fresh 0 ())) =
     Inr (evaluation_of raw_sample A1) \<and>
   fst (evaluatePresentation (\<lambda>model w. (Inr raw_sample, w)) A1 (fresh 0 ())) =
     Inr (evaluation_of raw_sample A1)"
  by code_simp

theorem evaluatePresentation_fixed_fields_witness:
  "fst (evaluatePresentation3 (\<lambda>model w. (Inr raw_sample, w)) A1 (fresh 0 ())) =
     Inr (evaluation_of raw_sample A1) \<and>
   mistakes (evaluation_of raw_sample A1) = [] \<and>
   keyVocabulary (evaluation_of raw_sample A1) = [] \<and>
   perceivedLevel (evaluation_of raw_sample A1) = A1 \<and>
   raw_mistakes raw_sample \<noteq> Some []"
  using evaluatePresentation_fixed_fields [of "\<lambda>model w. (Inr raw_sample, w)" A1
      "fresh 0 ()" "evaluation_of raw_sample A1"]
    evaluatePresentation_sample
  by (simp add: raw_sample_def)

end
